theory Spec2Isabelle
  imports Main "HOL-Library.Word"
begin

unbundle bit_operations_syntax

section \<open>The world outside the file layer\<close>

type_synonym byte = "8 word"

subsection \<open>The descriptor\<close>

text \<open>
  The handle owns one descriptor. What the kernel keeps behind it is a byte sequence and
  an offset. System calls can fail: \<open>script\<close> lists the outcome of the coming calls, one
  entry per call, and an empty script means that every call succeeds. \<open>EINTR\<close> and
  \<open>EAGAIN\<close> are the two errors that \<open>cups_read\<close> and \<open>cups_write\<close> retry.
\<close>

datatype sysres = OK | EINTR | EAGAIN | EIO

record os_file =
  fdata :: "byte list"
  foffset :: nat
  script :: "sysres list"

definition next_res :: "os_file \<Rightarrow> sysres" where
  "next_res f = (case script f of [] \<Rightarrow> OK | r # _ \<Rightarrow> r)"

definition advance :: "os_file \<Rightarrow> os_file" where
  "advance f = f\<lparr>script := tl (script f)\<rparr>"

text \<open>\<open>read(fd, buf, n)\<close>: the count (or -1), the bytes stored, the errno class, the file.\<close>

definition sys_read :: "os_file \<Rightarrow> nat \<Rightarrow> int \<times> byte list \<times> sysres \<times> os_file" where
  "sys_read f n =
     (case next_res f of
        OK \<Rightarrow> (let d = take n (drop (foffset f) (fdata f))
               in (int (length d), d, OK, (advance f)\<lparr>foffset := foffset f + length d\<rparr>))
      | e \<Rightarrow> (-1, [], e, advance f))"

text \<open>\<open>write(fd, buf, n)\<close> stores the bytes at the offset; a failing call stores nothing.\<close>

definition sys_write :: "os_file \<Rightarrow> byte list \<Rightarrow> int \<times> sysres \<times> os_file" where
  "sys_write f bs =
     (case next_res f of
        OK \<Rightarrow> (int (length bs), OK,
               (advance f)\<lparr>fdata := take (foffset f) (fdata f) @ bs
                                      @ drop (foffset f + length bs) (fdata f),
                            foffset := foffset f + length bs\<rparr>)
      | e \<Rightarrow> (-1, e, advance f))"

text \<open>\<open>lseek(fd, off, SEEK_SET)\<close>.\<close>

definition sys_lseek :: "os_file \<Rightarrow> int \<Rightarrow> int \<times> os_file" where
  "sys_lseek f off =
     (case next_res f of
        OK \<Rightarrow> (if off < 0 then (-1, advance f)
               else (off, (advance f)\<lparr>foffset := nat off\<rparr>))
      | e \<Rightarrow> (-1, advance f))"

text \<open>\<open>close(fd)\<close>.\<close>

definition sys_close :: "os_file \<Rightarrow> int \<times> os_file" where
  "sys_close f = (case next_res f of OK \<Rightarrow> (0, advance f) | e \<Rightarrow> (-1, advance f))"

subsection \<open>The compression library\<close>

text \<open>
  zlib is linked against, not part of the sources. Its entry points are parameters of the
  model: \<open>'z\<close> is the library's private state, and one call of \<open>inflate\<close> or
  \<open>deflate\<close> maps the state, the input available at \<open>next_in\<close> and the room
  \<open>avail_out\<close> to a status, the number of input bytes taken, the bytes produced and
  the new state. The status codes are those of \<open>zlib.h\<close>.
\<close>

record 'z zlib =
  z_crc32 :: "32 word \<Rightarrow> byte list \<Rightarrow> 32 word"
  z_inflateInit2 :: "int \<times> 'z"
  z_inflate :: "'z \<Rightarrow> byte list \<Rightarrow> nat \<Rightarrow> int \<times> nat \<times> byte list \<times> 'z"
  z_deflateInit2 :: "int \<Rightarrow> int \<times> 'z"
  z_deflate :: "'z \<Rightarrow> byte list \<Rightarrow> nat \<Rightarrow> int \<Rightarrow> int \<times> nat \<times> byte list \<times> 'z"

definition Z_OK :: int where "Z_OK = 0"
definition Z_STREAM_END :: int where "Z_STREAM_END = 1"
definition Z_BUF_ERROR :: int where "Z_BUF_ERROR = -5"
definition Z_NO_FLUSH :: int where "Z_NO_FLUSH = 0"
definition Z_FINISH :: int where "Z_FINISH = 4"

text \<open>
  A call never takes more than \<open>avail_in\<close> bytes and never stores more than
  \<open>avail_out\<close> bytes; the wrappers cut a parameter that would.
\<close>

definition inflate :: "'z zlib \<Rightarrow> 'z \<Rightarrow> byte list \<Rightarrow> nat \<Rightarrow> int \<times> nat \<times> byte list \<times> 'z" where
  "inflate Z st inp room =
     (case z_inflate Z st inp room of
        (status, n, out, st') \<Rightarrow> (status, min n (length inp), take room out, st'))"

definition deflate :: "'z zlib \<Rightarrow> 'z \<Rightarrow> byte list \<Rightarrow> nat \<Rightarrow> int \<Rightarrow> int \<times> nat \<times> byte list \<times> 'z" where
  "deflate Z st inp room flush =
     (case z_deflate Z st inp room flush of
        (status, n, out, st') \<Rightarrow> (status, min n (length inp), take room out, st'))"

section \<open>The handle\<close>

text \<open>
  \<open>struct _cups_file_s\<close>. The two arrays are kept as the bytes stored in them so far,
  from index 0: \<open>buf\<close> is the content of \<open>fp->buf\<close>, and \<open>ptr\<close> and \<open>endp\<close>
  (the field \<open>end\<close>) are offsets into it, \<open>None\<close> for the null pointer. Of the
  \<open>z_stream\<close>, \<open>zin\<close> is the \<open>avail_in\<close> bytes at \<open>next_in\<close>, \<open>zout\<close> the
  bytes of \<open>cbuf\<close> below \<open>next_out\<close>, and \<open>zstate\<close> the library's state.
\<close>

record 'z cups_file =
  fd :: os_file
  compressed :: bool
  mode :: char
  buf :: "byte list"
  ptr :: "nat option"
  endp :: "nat option"
  is_stdio :: bool
  eof :: bool
  pos :: int
  bufpos :: int
  zstate :: 'z
  zin :: "byte list"
  zout :: "byte list"
  crc :: "32 word"
  printf_buffer :: "byte list option"
  printf_size :: nat

definition BUFSIZE :: nat where "BUFSIZE = 4096"

text \<open>Storing \<open>new\<close> at the start of an array that holds \<open>old\<close>.\<close>

definition store :: "byte list \<Rightarrow> byte list \<Rightarrow> byte list" where
  "store new old = new @ drop (length new) old"

text \<open>The offset of a pointer into \<open>buf\<close>; the code only subtracts non-null pointers.\<close>

definition off :: "nat option \<Rightarrow> nat" where
  "off p = (case p of None \<Rightarrow> 0 | Some k \<Rightarrow> k)"

text \<open>\<open>fp->ptr >= fp->end\<close>: the null pointer lies below every address of \<open>buf\<close>.\<close>

definition ptr_ge :: "nat option \<Rightarrow> nat option \<Rightarrow> bool" where
  "ptr_ge p q = (case q of None \<Rightarrow> True | Some j \<Rightarrow> (case p of None \<Rightarrow> False | Some i \<Rightarrow> j \<le> i))"

section \<open>Raw reads\<close>

text \<open>
  \<open>cups_read\<close>: read (or recv, for a socket) again while the call is interrupted.
  The result is the count or -1, the bytes stored and the handle.
\<close>

function cups_read_fd :: "os_file \<Rightarrow> nat \<Rightarrow> int \<times> byte list \<times> os_file" where
  "cups_read_fd f n =
     (case sys_read f n of
        (cnt, d, e, f') \<Rightarrow>
          if cnt \<ge> 0 then (cnt, d, f')
          else if e = EAGAIN \<or> e = EINTR then cups_read_fd f' n
          else (-1, [], f'))"
  by pat_completeness auto
termination
  by (relation "measure (\<lambda>(f, n). length (script f))")
     (auto simp: sys_read_def advance_def next_res_def split: sysres.splits list.splits)

declare cups_read_fd.simps [simp del]

definition cups_read :: "'z cups_file \<Rightarrow> nat \<Rightarrow> int \<times> byte list \<times> 'z cups_file" where
  "cups_read fp n = (case cups_read_fd (fd fp) n of (cnt, d, f') \<Rightarrow> (cnt, d, fp\<lparr>fd := f'\<rparr>))"

section \<open>Filling the read buffer\<close>

text \<open>A block of \<open>cups_fill\<close> either returns from the function or falls through.\<close>

datatype 'a ctl = Return int 'a | Continue 'a

text \<open>
  Skipping the optional parts of a gzip header. \<open>d\<close> is the data read, its length the
  pointer \<open>end\<close>; \<open>p\<close> is the pointer \<open>ptr\<close>. \<open>None\<close> is the branch that sets
  \<open>eof\<close> and returns -1.
\<close>

definition skip_extra :: "byte list \<Rightarrow> nat \<Rightarrow> nat option" where
  "skip_extra d p =
     (if p + 2 > length d then None
      else let n = unat (push_bit 8 (ucast (d ! (p + 1)) :: 32 word) OR ucast (d ! p));
               p' = p + 2 + n
           in if p' > length d then None else Some p')"

definition skip_string :: "byte list \<Rightarrow> nat \<Rightarrow> nat option" where
  "skip_string d p =
     (let q = p + length (takeWhile (\<lambda>b. b \<noteq> 0) (drop p d))
      in if q < length d then Some (q + 1) else None)"

definition skip_hcrc :: "byte list \<Rightarrow> nat \<Rightarrow> nat option" where
  "skip_hcrc d p = (if p + 2 > length d then None else Some (p + 2))"

definition skip_if :: "bool \<Rightarrow> (nat \<Rightarrow> nat option) \<Rightarrow> nat option \<Rightarrow> nat option" where
  "skip_if c f po = (case po of None \<Rightarrow> None | Some p \<Rightarrow> if c then f p else Some p)"

definition parse_header :: "byte list \<Rightarrow> nat option" where
  "parse_header d =
     skip_if (d ! 3 AND 0x02 \<noteq> 0) (skip_hcrc d)
       (skip_if (d ! 3 AND 0x10 \<noteq> 0) (skip_string d)
         (skip_if (d ! 3 AND 0x08 \<noteq> 0) (skip_string d)
           (skip_if (d ! 3 AND 0x04 \<noteq> 0) (skip_extra d) (Some 10))))"

text \<open>The test that the data read does not start a gzip member.\<close>

definition not_gzip :: "byte list \<Rightarrow> bool" where
  "not_gzip d \<longleftrightarrow>
     length d < 10 \<or> d ! 0 \<noteq> 0x1f \<or> d ! 1 \<noteq> 0x8b \<or> d ! 2 \<noteq> 8 \<or> d ! 3 AND 0xe0 \<noteq> 0"

text \<open>The block \<open>if (!fp->ptr)\<close>: read the first bytes and look for a gzip header.\<close>

definition fill_header :: "'z zlib \<Rightarrow> 'z cups_file \<Rightarrow> 'z cups_file ctl" where
  "fill_header Z fp0 =
     (let fp = fp0\<lparr>compressed := False\<rparr> in
      case cups_read fp BUFSIZE of
        (bytes, d, fp1) \<Rightarrow>
          if bytes < 0 then Return (-1) (fp1\<lparr>eof := True\<rparr>)
          else
            let fp2 = fp1\<lparr>buf := store d (buf fp1)\<rparr> in
            if not_gzip d then Return bytes (fp2\<lparr>ptr := Some 0, endp := Some (length d)\<rparr>)
            else
              (case parse_header d of
                 None \<Rightarrow> Return (-1) (fp2\<lparr>eof := True\<rparr>)
               | Some p \<Rightarrow>
                   let fp3 = fp2\<lparr>zin := drop p d, zout := [], crc := z_crc32 Z 0 []\<rparr> in
                   (case z_inflateInit2 Z of
                      (status, st) \<Rightarrow>
                        if status \<noteq> Z_OK then Return (-1) (fp3\<lparr>eof := True\<rparr>)
                        else Continue (fp3\<lparr>zstate := st, compressed := True\<rparr>))))"

text \<open>The trailer's CRC, least significant byte first.\<close>

definition trailer_crc :: "byte list \<Rightarrow> 32 word" where
  "trailer_crc t =
     push_bit 8 (push_bit 8 (push_bit 8 (ucast (t ! 3)) OR ucast (t ! 2)) OR ucast (t ! 1))
       OR ucast (t ! 0)"

text \<open>The branch \<open>status == Z_STREAM_END\<close>: fetch the eight trailer bytes and compare.\<close>

definition fill_trailer :: "'z cups_file \<Rightarrow> 'z cups_file ctl" where
  "fill_trailer fp =
     (let tbytes = (if length (zin fp) > 0 then (if length (zin fp) > 8 then 8 else length (zin fp))
                    else 0);
          t0 = take tbytes (zin fp);
          fp1 = fp\<lparr>zin := drop tbytes (zin fp)\<rparr>
      in
        if tbytes < 8 then
          (case sys_read (fd fp1) (8 - tbytes) of
             (n, d, e, f') \<Rightarrow>
               if n < int 8 - int tbytes then Return (-1) (fp1\<lparr>fd := f', eof := True\<rparr>)
               else if trailer_crc (t0 @ d) \<noteq> crc fp1 then Return (-1) (fp1\<lparr>fd := f', eof := True\<rparr>)
               else Continue (fp1\<lparr>fd := f', compressed := False\<rparr>))
        else if trailer_crc t0 \<noteq> crc fp1 then Return (-1) (fp1\<lparr>eof := True\<rparr>)
        else Continue (fp1\<lparr>compressed := False\<rparr>))"

text \<open>
  The block \<open>if (fp->compressed)\<close>, in its three steps: \<open>fill_more\<close> reads more of
  the file into \<open>cbuf\<close> when the decompressor's input is used up, \<open>fill_decode\<close>
  calls the decompressor once and adds its output to the CRC, \<open>fill_finish\<close> looks at
  the status and sets the buffer up.
\<close>

definition fill_more :: "'z cups_file \<Rightarrow> 'z cups_file ctl" where
  "fill_more fp =
     (if zin fp = [] then
        (case cups_read fp BUFSIZE of
           (bytes, d, fp1) \<Rightarrow>
             if bytes \<le> 0 then Return bytes (fp1\<lparr>eof := True\<rparr>)
             else Continue (fp1\<lparr>zin := d\<rparr>))
      else Continue fp)"

definition fill_decode :: "'z zlib \<Rightarrow> 'z cups_file \<Rightarrow> int \<times> byte list \<times> 'z cups_file" where
  "fill_decode Z fp2 =
     (case inflate Z (zstate fp2) (zin fp2) BUFSIZE of
        (status, n, out, st') \<Rightarrow>
          let fp3 = fp2\<lparr>zstate := st', zin := drop n (zin fp2), buf := store out (buf fp2)\<rparr>
          in (status, out, if out \<noteq> [] then fp3\<lparr>crc := z_crc32 Z (crc fp3) out\<rparr> else fp3))"

definition fill_finish :: "int \<Rightarrow> byte list \<Rightarrow> 'z cups_file \<Rightarrow> 'z cups_file ctl" where
  "fill_finish status out fp4 =
     (case (if status = Z_STREAM_END then fill_trailer fp4
            else if status < Z_OK then Return (-1) (fp4\<lparr>eof := True\<rparr>)
            else Continue fp4) of
        Return r fp' \<Rightarrow> Return r fp'
      | Continue fp5 \<Rightarrow>
          let bytes = int (length out);
              fp6 = fp5\<lparr>ptr := Some 0, endp := Some (length out)\<rparr>
          in if bytes \<noteq> 0 then Return bytes fp6 else Continue fp6)"

definition fill_inflate :: "'z zlib \<Rightarrow> 'z cups_file \<Rightarrow> 'z cups_file ctl" where
  "fill_inflate Z fp =
     (if eof fp then Return 0 fp
      else
        case fill_more fp of
          Return r fp' \<Rightarrow> Return r fp'
        | Continue fp2 \<Rightarrow>
            (case fill_decode Z fp2 of (status, out, fp4) \<Rightarrow> fill_finish status out fp4))"

text \<open>After the loop: one raw read into \<open>buf\<close>.\<close>

definition fill_raw :: "'z cups_file \<Rightarrow> int \<times> 'z cups_file" where
  "fill_raw fp =
     (case cups_read fp BUFSIZE of
        (bytes, d, fp1) \<Rightarrow>
          if bytes \<le> 0 then (bytes, fp1\<lparr>eof := True, ptr := Some 0, endp := Some 0\<rparr>)
          else (bytes, fp1\<lparr>buf := store d (buf fp1), eof := False, ptr := Some 0,
                           endp := Some (length d)\<rparr>))"

text \<open>
  The loop \<open>while (!fp->ptr || fp->compressed)\<close>. The decompressor may keep answering
  \<open>Z_OK\<close> without producing a byte, so the loop need not end: \<open>None\<close> is the run that
  does not return.
\<close>

partial_function (option) cups_fill_loop :: "'z zlib \<Rightarrow> 'z cups_file \<Rightarrow> (int \<times> 'z cups_file) option" where
  "cups_fill_loop Z fp =
     (if ptr fp = None \<or> compressed fp then
        (case (if ptr fp = None then fill_header Z fp else Continue fp) of
           Return r fp' \<Rightarrow> Some (r, fp')
         | Continue fp1 \<Rightarrow>
             (case (if compressed fp1 then fill_inflate Z fp1 else Continue fp1) of
                Return r fp' \<Rightarrow> Some (r, fp')
              | Continue fp2 \<Rightarrow> cups_fill_loop Z fp2))
      else Some (fill_raw fp))"

declare cups_fill_loop.simps [code]

text \<open>The first statement of \<open>cups_fill\<close>: the buffer's position moves past the old buffer.\<close>

definition fill_enter :: "'z cups_file \<Rightarrow> 'z cups_file" where
  "fill_enter fp =
     (if ptr fp \<noteq> None \<and> endp fp \<noteq> None
      then fp\<lparr>bufpos := bufpos fp + int (off (endp fp))\<rparr> else fp)"

definition cups_fill :: "'z zlib \<Rightarrow> 'z cups_file \<Rightarrow> (int \<times> 'z cups_file) option" where
  "cups_fill Z fp = cups_fill_loop Z (fill_enter fp)"

section \<open>Reading, rewinding and seeking\<close>

text \<open>
  \<open>cupsFileRead\<close>: the result is the count (or -1), the bytes copied to the caller and
  the handle. \<open>n\<close> is the number of bytes still wanted, \<open>tot\<close> the number copied.
  \<open>read_fill\<close> is the refill of an empty buffer at the head of the loop body,
  \<open>read_copy\<close> the copy out of the buffer that follows it.
\<close>

definition read_fill :: "'z zlib \<Rightarrow> 'z cups_file \<Rightarrow> nat \<Rightarrow> 'z cups_file ctl option" where
  "read_fill Z fp tot =
     (if ptr_ge (ptr fp) (endp fp)
      then map_option (\<lambda>(r, fp1). if r \<le> 0
                         then Return (if tot > 0 then int tot else -1) fp1
                         else Continue fp1) (cups_fill Z fp)
      else Some (Continue fp))"

definition read_copy :: "'z cups_file \<Rightarrow> nat \<Rightarrow> nat \<times> byte list \<times> 'z cups_file" where
  "read_copy fp1 n =
     (let avail = off (endp fp1) - off (ptr fp1);
          count = (if avail > n then n else avail);
          chunk = take count (drop (off (ptr fp1)) (buf fp1));
          fp2 = fp1\<lparr>ptr := Some (off (ptr fp1) + count), pos := pos fp1 + int count\<rparr>
      in (count, chunk, fp2))"

partial_function (option) read_loop ::
  "'z zlib \<Rightarrow> 'z cups_file \<Rightarrow> nat \<Rightarrow> nat \<Rightarrow> byte list \<Rightarrow> (int \<times> byte list \<times> 'z cups_file) option" where
  "read_loop Z fp n tot acc =
     (if n > 0 then
        (case read_fill Z fp tot of
           None \<Rightarrow> None
         | Some (Return r fp') \<Rightarrow> Some (r, acc, fp')
         | Some (Continue fp1) \<Rightarrow>
             (case read_copy fp1 n of
                (count, chunk, fp2) \<Rightarrow> read_loop Z fp2 (n - count) (tot + count) (acc @ chunk)))
      else Some (int tot, acc, fp))"

declare read_loop.simps [code]

definition cupsFileRead :: "'z zlib \<Rightarrow> 'z cups_file \<Rightarrow> nat \<Rightarrow> (int \<times> byte list \<times> 'z cups_file) option" where
  "cupsFileRead Z fp bytes =
     (if mode fp \<noteq> CHR ''r'' \<and> mode fp \<noteq> CHR ''s'' then Some (-1, [], fp)
      else if bytes = 0 then Some (0, [], fp)
      else if eof fp then Some (-1, [], fp)
      else read_loop Z fp bytes 0 [])"

text \<open>\<open>cupsFileRewind\<close>. Ending the decompressor leaves nothing the model keeps.\<close>

definition cupsFileRewind :: "'z cups_file \<Rightarrow> int \<times> 'z cups_file" where
  "cupsFileRewind fp =
     (if mode fp \<noteq> CHR ''r'' then (-1, fp)
      else if bufpos fp = 0 then
        (let fp1 = fp\<lparr>pos := 0\<rparr>
         in (0, if ptr fp1 \<noteq> None then fp1\<lparr>ptr := Some 0, eof := False\<rparr> else fp1))
      else
        (let fp1 = (if compressed fp then fp\<lparr>compressed := False\<rparr> else fp)
         in case sys_lseek (fd fp1) 0 of
              (r, f') \<Rightarrow>
                if r \<noteq> 0 then (-1, fp1\<lparr>fd := f'\<rparr>)
                else (0, fp1\<lparr>fd := f', bufpos := 0, pos := 0, ptr := None, endp := None,
                              eof := False\<rparr>)))"

text \<open>
  The loop \<open>while ((bytes = cups_fill(fp)) > 0)\<close> of \<open>cupsFileSeek\<close>, which stops at
  the buffer that holds the position \<open>p\<close>. The result is the last value of \<open>bytes\<close>.
\<close>

partial_function (option) seek_loop ::
  "'z zlib \<Rightarrow> 'z cups_file \<Rightarrow> int \<Rightarrow> (int \<times> 'z cups_file) option" where
  "seek_loop Z fp p =
     (case cups_fill Z fp of
        None \<Rightarrow> None
      | Some (bytes, fp1) \<Rightarrow>
          if bytes > 0 then
            (if p \<ge> bufpos fp1 \<and> p < bufpos fp1 + bytes then Some (bytes, fp1)
             else seek_loop Z fp1 p)
          else Some (bytes, fp1))"

declare seek_loop.simps [code]

definition seek_replay :: "'z zlib \<Rightarrow> 'z cups_file \<Rightarrow> int \<Rightarrow> (int \<times> 'z cups_file) option" where
  "seek_replay Z fp p =
     (case seek_loop Z fp p of
        None \<Rightarrow> None
      | Some (bytes, fp1) \<Rightarrow>
          if bytes \<le> 0 then Some (-1, fp1)
          else Some (p, fp1\<lparr>ptr := Some (nat (p - bufpos fp1)), pos := p\<rparr>))"

definition seek_raw :: "'z cups_file \<Rightarrow> int \<Rightarrow> int \<times> 'z cups_file" where
  "seek_raw fp p =
     (case sys_lseek (fd fp) p of
        (r, f') \<Rightarrow> (r, fp\<lparr>fd := f', bufpos := r, pos := r, ptr := None, endp := None\<rparr>))"

text \<open>
  \<open>cupsFileSeek\<close>, past its special cases: \<open>seek_preload\<close> fills a buffer to learn
  whether the file is compressed, \<open>seek_move\<close> seeks backwards or forwards.
\<close>

definition seek_preload :: "'z zlib \<Rightarrow> 'z cups_file \<Rightarrow> 'z cups_file ctl option" where
  "seek_preload Z fp =
     (if \<not> compressed fp \<and> ptr fp = None
      then map_option (\<lambda>(r, fp1). if r \<le> 0 then Return (-1) fp1 else Continue fp1)
             (cups_fill Z fp)
      else Some (Continue fp))"

definition seek_move :: "'z zlib \<Rightarrow> 'z cups_file \<Rightarrow> int \<Rightarrow> (int \<times> 'z cups_file) option" where
  "seek_move Z fp1 p =
     (let fp2 = fp1\<lparr>eof := False\<rparr> in
      if p < bufpos fp2 then
        (if compressed fp2 then
           (case sys_lseek (fd fp2) 0 of
              (r, f') \<Rightarrow>
                seek_replay Z (fp2\<lparr>fd := f', bufpos := 0, pos := 0, ptr := None,
                                    endp := None\<rparr>) p)
         else Some (seek_raw fp2 p))
      else
        (if compressed fp2 then seek_replay Z fp2 p else Some (seek_raw fp2 p)))"

definition cupsFileSeek :: "'z zlib \<Rightarrow> 'z cups_file \<Rightarrow> int \<Rightarrow> (int \<times> 'z cups_file) option" where
  "cupsFileSeek Z fp p =
     (if p < 0 \<or> mode fp \<noteq> CHR ''r'' then Some (-1, fp)
      else if p = 0 then Some (cupsFileRewind fp)
      else if ptr fp \<noteq> None \<and> p \<ge> bufpos fp \<and> p < bufpos fp + int (off (endp fp)) then
        Some (p, fp\<lparr>pos := p, ptr := Some (nat (p - bufpos fp)), eof := False\<rparr>)
      else
        case seek_preload Z fp of
          None \<Rightarrow> None
        | Some (Return r fp') \<Rightarrow> Some (r, fp')
        | Some (Continue fp1) \<Rightarrow> seek_move Z fp1 p)"

section \<open>Writing\<close>

text \<open>\<open>cups_write\<close>: write until all bytes are out, again after an interrupted call.\<close>

function cups_write_fd :: "os_file \<Rightarrow> byte list \<Rightarrow> bool \<times> os_file" where
  "cups_write_fd f bs =
     (if length bs > 0 then
        (case sys_write f bs of
           (cnt, e, f') \<Rightarrow>
             if cnt < 0 then
               (if e = EAGAIN \<or> e = EINTR then cups_write_fd f' bs else (False, f'))
             else cups_write_fd f' (drop (nat cnt) bs))
      else (True, f))"
  by pat_completeness auto
termination
  by (relation "measure (\<lambda>(f, bs). length (script f) + length bs)")
     (auto simp: sys_write_def advance_def next_res_def split: sysres.splits list.splits)

declare cups_write_fd.simps [simp del]

definition cups_write :: "'z cups_file \<Rightarrow> byte list \<Rightarrow> bool \<times> 'z cups_file" where
  "cups_write fp bs = (case cups_write_fd (fd fp) bs of (ok, f') \<Rightarrow> (ok, fp\<lparr>fd := f'\<rparr>))"

definition CBUFSIZE :: nat where "CBUFSIZE = 4096"

text \<open>
  The loop of \<open>cups_compress\<close>. \<open>avail_out\<close> is the room left in \<open>cbuf\<close> above
  \<open>next_out\<close>. A compressor that takes no input keeps the loop running.
\<close>

partial_function (option) compress_loop :: "'z zlib \<Rightarrow> 'z cups_file \<Rightarrow> (bool \<times> 'z cups_file) option" where
  "compress_loop Z fp =
     (if length (zin fp) > 0 then
        (case (if CBUFSIZE - length (zout fp) < CBUFSIZE div 8
               then (case cups_write fp (zout fp) of
                       (ok, fp1) \<Rightarrow> if \<not> ok then Return 0 fp1 else Continue (fp1\<lparr>zout := []\<rparr>))
               else Continue fp) of
           Return r fp' \<Rightarrow> Some (False, fp')
         | Continue fp2 \<Rightarrow>
             (case deflate Z (zstate fp2) (zin fp2) (CBUFSIZE - length (zout fp2)) Z_NO_FLUSH of
                (status, n, out, st') \<Rightarrow>
                  let fp3 = fp2\<lparr>zstate := st', zin := drop n (zin fp2), zout := zout fp2 @ out\<rparr>
                  in if status < Z_OK \<and> status \<noteq> Z_BUF_ERROR then Some (False, fp3)
                     else compress_loop Z fp3))
      else Some (True, fp))"

declare compress_loop.simps [code]

definition cups_compress :: "'z zlib \<Rightarrow> 'z cups_file \<Rightarrow> byte list \<Rightarrow> (bool \<times> 'z cups_file) option" where
  "cups_compress Z fp bs = compress_loop Z (fp\<lparr>crc := z_crc32 Z (crc fp) bs, zin := bs\<rparr>)"

definition cupsFileFlush :: "'z zlib \<Rightarrow> 'z cups_file \<Rightarrow> (bool \<times> 'z cups_file) option" where
  "cupsFileFlush Z fp =
     (if mode fp \<noteq> CHR ''w'' then Some (False, fp)
      else
        let bytes = off (ptr fp) in
        if bytes > 0 then
          map_option (\<lambda>(ret, fp1). (ret, fp1\<lparr>ptr := Some 0\<rparr>))
            (if compressed fp then cups_compress Z fp (take bytes (buf fp))
             else Some (cups_write fp (take bytes (buf fp))))
        else Some (True, fp))"

text \<open>\<open>memcpy(fp->ptr, buf, bytes)\<close>.\<close>

definition store_at :: "nat \<Rightarrow> byte list \<Rightarrow> byte list \<Rightarrow> byte list" where
  "store_at k new old = take k old @ new @ drop (k + length new) old"

definition cupsFileWrite :: "'z zlib \<Rightarrow> 'z cups_file \<Rightarrow> byte list \<Rightarrow> (bool \<times> 'z cups_file) option" where
  "cupsFileWrite Z fp bs =
     (if mode fp \<noteq> CHR ''w'' \<and> mode fp \<noteq> CHR ''s'' then Some (False, fp)
      else if length bs = 0 then Some (True, fp)
      else if mode fp = CHR ''s'' then
        (case cups_write fp bs of
           (ok, fp1) \<Rightarrow> if \<not> ok then Some (False, fp1)
                        else Some (True, fp1\<lparr>pos := pos fp1 + int (length bs)\<rparr>))
      else
        case (if off (ptr fp) + length bs > off (endp fp)
              then map_option (\<lambda>(ok, fp1). if \<not> ok then Return 0 fp1 else Continue fp1)
                     (cupsFileFlush Z fp)
              else Some (Continue fp)) of
          None \<Rightarrow> None
        | Some (Return r fp') \<Rightarrow> Some (False, fp')
        | Some (Continue fp1) \<Rightarrow>
            let fp2 = fp1\<lparr>pos := pos fp1 + int (length bs)\<rparr> in
            if length bs > BUFSIZE then
              (if compressed fp2 then cups_compress Z fp2 bs else Some (cups_write fp2 bs))
            else Some (True, fp2\<lparr>buf := store_at (off (ptr fp2)) bs (buf fp2),
                                  ptr := Some (off (ptr fp2) + length bs)\<rparr>))"

section \<open>Closing\<close>

text \<open>
  What \<open>cupsFileClose\<close> leaves behind: its return value, the file, and which of the
  handle's resources were given back: the (de)compressor's state (\<open>inflateEnd\<close> or
  \<open>deflateEnd\<close>), the printf buffer and the handle (\<open>free\<close>), the descriptor
  (\<open>close\<close>).
\<close>

record closed =
  c_status :: bool
  c_file :: os_file
  c_stream_ended :: bool
  c_freed :: bool
  c_fd_closed :: bool

text \<open>The eight trailer bytes, from \<open>fp->crc\<close> and \<open>fp->pos\<close>.\<close>

definition trailer :: "'z cups_file \<Rightarrow> byte list" where
  "trailer fp =
     [ucast (crc fp), ucast (drop_bit 8 (crc fp)), ucast (drop_bit 16 (crc fp)),
      ucast (drop_bit 24 (crc fp)),
      word_of_int (pos fp), word_of_int (drop_bit 8 (pos fp)), word_of_int (drop_bit 16 (pos fp)),
      word_of_int (drop_bit 24 (pos fp))]"

text \<open>
  The loop \<open>for (done = false;;)\<close> that finishes the compressed stream. It ends when
  the compressor answers \<open>Z_STREAM_END\<close> without output, or when a write fails.
\<close>

partial_function (option) drain_loop ::
  "'z zlib \<Rightarrow> 'z cups_file \<Rightarrow> bool \<Rightarrow> bool \<Rightarrow> (bool \<times> 'z cups_file) option" where
  "drain_loop Z fp don status =
     (case (if length (zout fp) > 0
            then (case cups_write fp (zout fp) of (ok, fp1) \<Rightarrow> (ok, fp1\<lparr>zout := []\<rparr>))
            else (status, fp)) of
        (status1, fp1) \<Rightarrow>
          if don \<or> \<not> status1 then Some (status1, fp1)
          else
            (case deflate Z (zstate fp1) (zin fp1) (CBUFSIZE - length (zout fp1)) Z_FINISH of
               (st, n, out, z') \<Rightarrow>
                 let fp2 = fp1\<lparr>zstate := z', zin := drop n (zin fp1), zout := zout fp1 @ out\<rparr>
                 in drain_loop Z fp2 (st = Z_STREAM_END \<and> zout fp2 = []) status1))"

declare drain_loop.simps [code]

text \<open>The end of \<open>cupsFileClose\<close>, after the streams are finished.\<close>

definition close_release :: "'z cups_file \<Rightarrow> bool \<Rightarrow> bool \<Rightarrow> closed" where
  "close_release fp status ended =
     (if is_stdio fp then
        \<lparr>c_status = status, c_file = fd fp, c_stream_ended = ended, c_freed = False,
         c_fd_closed = False\<rparr>
      else
        case sys_close (fd fp) of
          (r, f') \<Rightarrow>
            \<lparr>c_status = (if mode fp = CHR ''s'' then r = 0 else if r < 0 then False else status),
             c_file = f', c_stream_ended = ended, c_freed = True, c_fd_closed = True\<rparr>)"

definition cupsFileClose :: "'z zlib \<Rightarrow> 'z cups_file \<Rightarrow> closed option" where
  "cupsFileClose Z fp =
     (case (if mode fp = CHR ''w'' then cupsFileFlush Z fp else Some (True, fp)) of
        None \<Rightarrow> None
      | Some (status, fp1) \<Rightarrow>
          if compressed fp1 \<and> status then
            (if mode fp1 = CHR ''r'' then Some (close_release fp1 status True)
             else
               (case drain_loop Z (fp1\<lparr>zin := []\<rparr>) False status of
                  None \<Rightarrow> None
                | Some (status1, fp2) \<Rightarrow>
                    (case cups_write fp2 (trailer fp2) of
                       (status2, fp3) \<Rightarrow> Some (close_release fp3 status2 True))))
          else Some (close_release fp1 status False))"

section \<open>Opening\<close>

text \<open>\<open>mode[i]\<close> of a C string: the terminator beyond the last character.\<close>

definition chr_at :: "string \<Rightarrow> nat \<Rightarrow> char" where
  "chr_at s i = (if i < length s then s ! i else CHR 0x00)"

definition isdigit :: "char \<Rightarrow> bool" where
  "isdigit c \<longleftrightarrow> of_char (CHR ''0'') \<le> (of_char c :: nat) \<and> (of_char c :: nat) \<le> of_char (CHR ''9'')"

text \<open>The ten bytes of the gzip header written for a compressed file.\<close>

definition gzip_header :: "int \<Rightarrow> byte list" where
  "gzip_header curtime =
     [0x1f, 0x8b, 8, 0, word_of_int curtime, word_of_int (drop_bit 8 curtime),
      word_of_int (drop_bit 16 curtime), word_of_int (drop_bit 24 curtime), 0, 0x03]"

text \<open>
  \<open>cupsFileOpenFd\<close>. \<open>calloc\<close> clears the handle: \<open>z0\<close> is the cleared
  \<open>z_stream\<close>. \<open>curtime\<close> is the clock's answer. \<open>None\<close> is the null result.
\<close>

definition cleared :: "'z \<Rightarrow> os_file \<Rightarrow> 'z cups_file" where
  "cleared z0 f =
     \<lparr>fd = f, compressed = False, mode = CHR 0x00, buf = [], ptr = None, endp = None,
      is_stdio = False, eof = False, pos = 0, bufpos = 0, zstate = z0, zin = [], zout = [],
      crc = 0, printf_buffer = None, printf_size = 0\<rparr>"

definition cupsFileOpenFd :: "'z zlib \<Rightarrow> 'z \<Rightarrow> int \<Rightarrow> os_file \<Rightarrow> string \<Rightarrow> 'z cups_file option" where
  "cupsFileOpenFd Z z0 curtime f m =
     (let m0 = chr_at m 0; m1 = chr_at m 1 in
      if (m0 \<noteq> CHR ''r'' \<and> m0 \<noteq> CHR ''w'' \<and> m0 \<noteq> CHR ''a'' \<and> m0 \<noteq> CHR ''s'')
         \<or> (m0 = CHR ''a'' \<and> isdigit m1) then None
      else
        let fp = cleared z0 f in
        if m0 = CHR ''a'' \<or> m0 = CHR ''w'' then
          (let fp1 = (if m0 = CHR ''a''
                      then fp\<lparr>fd := (fd fp)\<lparr>foffset := length (fdata (fd fp))\<rparr>,
                              pos := int (length (fdata (fd fp)))\<rparr>
                      else fp);
               fp2 = fp1\<lparr>mode := CHR ''w'', ptr := Some 0, endp := Some BUFSIZE\<rparr>
           in
             if (of_char (CHR ''1'') :: nat) \<le> of_char m1 \<and> (of_char m1 :: nat) \<le> of_char (CHR ''9'') then
               (case cups_write fp2 (gzip_header curtime) of
                  (ok, fp3) \<Rightarrow>
                    (case z_deflateInit2 Z (int (of_char m1) - int (of_char (CHR ''0''))) of
                       (status, st) \<Rightarrow>
                         if status < Z_OK then None
                         else Some (fp3\<lparr>zstate := st, zout := [], compressed := True,
                                        crc := z_crc32 Z 0 []\<rparr>)))
             else Some fp2)
        else if m0 = CHR ''r'' then Some (fp\<lparr>mode := CHR ''r''\<rparr>)
        else Some (fp\<lparr>mode := CHR ''s''\<rparr>))"

section \<open>Formatted writes\<close>

text \<open>A C function that returns \<open>bool\<close> turns the returned integer into its truth value.\<close>

definition c_bool :: "int \<Rightarrow> bool" where
  "c_bool i \<longleftrightarrow> i \<noteq> 0"

text \<open>
  \<open>cupsFilePrintf\<close>. \<open>s\<close> is the text the format and its arguments render to:
  \<open>vsnprintf\<close> answers its length and stores as much of it as fits below the
  terminator. Allocation is taken to succeed.
\<close>

definition vsnprintf :: "nat \<Rightarrow> byte list \<Rightarrow> byte list" where
  "vsnprintf sz s = take (sz - 1) s"

definition cupsFilePrintf :: "'z zlib \<Rightarrow> 'z cups_file \<Rightarrow> byte list \<Rightarrow> (bool \<times> 'z cups_file) option" where
  "cupsFilePrintf Z fp0 s =
     (if mode fp0 \<noteq> CHR ''w'' \<and> mode fp0 \<noteq> CHR ''s'' then Some (False, fp0)
      else
        let fp1 = (if printf_buffer fp0 = None
                   then fp0\<lparr>printf_buffer := Some [], printf_size := 1024\<rparr> else fp0);
            fp2 = fp1\<lparr>printf_buffer := Some (vsnprintf (printf_size fp1) s)\<rparr>;
            bytes = length s
        in
          case (if bytes \<ge> printf_size fp2 then
                  (if bytes > 65535 then Return (-1) fp2
                   else Continue (fp2\<lparr>printf_size := bytes + 1,
                                      printf_buffer := Some (vsnprintf (bytes + 1) s)\<rparr>))
                else Continue fp2) of
            Return r fp' \<Rightarrow> Some (c_bool r, fp')
          | Continue fp \<Rightarrow>
              let rendered = the (printf_buffer fp) in
              if mode fp = CHR ''s'' then
                (case cups_write fp rendered of
                   (ok, fp3) \<Rightarrow> if \<not> ok then Some (False, fp3)
                                else Some (c_bool (int bytes), fp3\<lparr>pos := pos fp3 + int bytes\<rparr>))
              else
                case (if off (ptr fp) + bytes > off (endp fp)
                      then map_option (\<lambda>(ok, fp3). if \<not> ok then Return 0 fp3 else Continue fp3)
                             (cupsFileFlush Z fp)
                      else Some (Continue fp)) of
                  None \<Rightarrow> None
                | Some (Return r fp') \<Rightarrow> Some (False, fp')
                | Some (Continue fp3) \<Rightarrow>
                    let fp4 = fp3\<lparr>pos := pos fp3 + int bytes\<rparr> in
                    if bytes > BUFSIZE then
                      (if compressed fp4 then cups_compress Z fp4 rendered
                       else Some (cups_write fp4 rendered))
                    else
                      let fp5 = fp4\<lparr>buf := store_at (off (ptr fp4)) rendered (buf fp4),
                                      ptr := Some (off (ptr fp4) + bytes)\<rparr>
                      in if is_stdio fp5
                         then cupsFileFlush Z fp5
                         else Some (True, fp5))"

section \<open>Lines and configuration directives\<close>












section \<open>An instance of the compression library\<close>

text \<open>
  The examples need one library to run. This one is the CRC-32 of the gzip format and a
  DEFLATE coder that knows stored blocks only: a block is the byte 0 or 1 (1 for the last
  block), its length and the length's complement, each in two bytes, and the bytes.
\<close>

definition crc_bit :: "32 word \<Rightarrow> 32 word" where
  "crc_bit c = (if c AND 1 \<noteq> 0 then drop_bit 1 c XOR 0xEDB88320 else drop_bit 1 c)"

definition crc_byte :: "32 word \<Rightarrow> byte \<Rightarrow> 32 word" where
  "crc_byte c b = (crc_bit ^^ 8) (c XOR ucast b)"

definition crc32 :: "32 word \<Rightarrow> byte list \<Rightarrow> 32 word" where
  "crc32 c bs = NOT (foldl crc_byte (NOT c) bs)"

datatype zst = ZHdr "byte list" | ZBody nat bool | ZDone | ZBad | ZOut "byte list" bool

definition hdr_state :: "byte list \<Rightarrow> zst" where
  "hdr_state h =
     (if h ! 0 AND 0xFE \<noteq> 0 \<or> h ! 3 \<noteq> NOT (h ! 1) \<or> h ! 4 \<noteq> NOT (h ! 2) then ZBad
      else ZBody (unat (h ! 1) + 256 * unat (h ! 2)) (h ! 0 = 1))"

fun stored_run :: "nat \<Rightarrow> zst \<Rightarrow> byte list \<Rightarrow> nat \<Rightarrow> nat \<times> byte list \<times> zst" where
  "stored_run 0 st inp room = (0, [], st)"
| "stored_run (Suc k) (ZHdr h) inp room =
     (case inp of
        [] \<Rightarrow> (0, [], ZHdr h)
      | b # bs \<Rightarrow>
          (case stored_run k (if length h < 4 then ZHdr (h @ [b]) else hdr_state (h @ [b])) bs room of
             (n, out, st) \<Rightarrow> (Suc n, out, st)))"
| "stored_run (Suc k) (ZBody m fin) inp room =
     (if m = 0 then stored_run k (if fin then ZDone else ZHdr []) inp room
      else
        let c = min m (min (length inp) room) in
        if c = 0 then (0, [], ZBody m fin)
        else (case stored_run k (ZBody (m - c) fin) (drop c inp) (room - c) of
                (n, out, st) \<Rightarrow> (c + n, take c inp @ out, st)))"
| "stored_run (Suc k) st inp room = (0, [], st)"

definition stored_inflate :: "zst \<Rightarrow> byte list \<Rightarrow> nat \<Rightarrow> int \<times> nat \<times> byte list \<times> zst" where
  "stored_inflate st inp room =
     (case stored_run (2 * length inp + 4) st inp room of
        (n, out, st') \<Rightarrow>
          ((if st' = ZDone then 1 else if st' = ZBad then -3
            else if n = 0 \<and> out = [] then -5 else 0), n, out, st'))"

definition stored_block :: "bool \<Rightarrow> byte list \<Rightarrow> byte list" where
  "stored_block fin bs =
     [if fin then 1 else 0, word_of_nat (length bs), word_of_nat (length bs div 256),
      NOT (word_of_nat (length bs)), NOT (word_of_nat (length bs div 256))] @ bs"

text \<open>
  The compressor keeps the blocks not yet handed out (\<open>ZOut\<close>) and whether the last
  block was made. It takes at most 65535 bytes in a call, one block's worth.
\<close>

definition stored_deflate :: "zst \<Rightarrow> byte list \<Rightarrow> nat \<Rightarrow> int \<Rightarrow> int \<times> nat \<times> byte list \<times> zst" where
  "stored_deflate st inp room flush =
     (case st of
        ZOut pend fin \<Rightarrow>
          let n = min (length inp) 65535;
              p1 = pend @ (if n > 0 then stored_block False (take n inp) else []);
              last_now = (flush = 4 \<and> \<not> fin \<and> n = length inp);
              p2 = p1 @ (if last_now then stored_block True [] else []);
              fin' = (fin \<or> last_now)
          in ((if fin' \<and> drop room p2 = [] then 1 else 0), n, take room p2, ZOut (drop room p2) fin')
      | _ \<Rightarrow> (-2, 0, [], st))"

definition stored_zlib :: "zst zlib" where
  "stored_zlib =
     \<lparr>z_crc32 = crc32, z_inflateInit2 = (0, ZHdr []), z_inflate = stored_inflate,
      z_deflateInit2 = (\<lambda>level. (0, ZOut [] False)), z_deflate = stored_deflate\<rparr>"

text \<open>A file with no failing call to come, and the handle that reads it.\<close>

definition file_of :: "byte list \<Rightarrow> os_file" where
  "file_of bs = \<lparr>fdata = bs, foffset = 0, script = []\<rparr>"

definition open_read :: "byte list \<Rightarrow> zst cups_file" where
  "open_read bs = (cleared ZBad (file_of bs))\<lparr>mode := CHR ''r''\<rparr>"

text \<open>
  Example files: the gzip member that stores the one byte \<open>a\<close> (header, one stored
  block, CRC-32 E8B7BE43, length 1), the same with the first byte of the CRC changed, and
  the member that stores \<open>b\<close>.
\<close>

definition gz_a :: "byte list" where
  "gz_a = [0x1f, 0x8b, 8, 0, 0, 0, 0, 0, 0, 3, 1, 1, 0, 0xfe, 0xff, 0x61,
           0x43, 0xbe, 0xb7, 0xe8, 1, 0, 0, 0]"


definition gz_b :: "byte list" where
  "gz_b = [0x1f, 0x8b, 8, 0, 0, 0, 0, 0, 0, 3, 1, 1, 0, 0xfe, 0xff, 0x62,
           0xf9, 0xef, 0xbe, 0x71, 1, 0, 0, 0]"



definition cursor_ok :: "'z cups_file \<Rightarrow> bool" where
  "cursor_ok fp \<longleftrightarrow>
     (case ptr fp of
        None \<Rightarrow> endp fp = None
      | Some p \<Rightarrow> (case endp fp of None \<Rightarrow> False | Some e \<Rightarrow> p \<le> e))"

text \<open>
  Two relations used to follow a fill: the second handle is at the same position, buffer
  position and mode as the first, over a file with the same bytes, and no call of its
  descriptor will fail if none would before; the handle has a buffer of \<open>r\<close> bytes
  with the cursor at its start.
\<close>

definition same_place :: "'z cups_file \<Rightarrow> 'z cups_file \<Rightarrow> bool" where
  "same_place fp fp' \<longleftrightarrow>
     pos fp' = pos fp \<and> bufpos fp' = bufpos fp \<and> mode fp' = mode fp \<and>
     is_stdio fp' = is_stdio fp \<and> fdata (fd fp') = fdata (fd fp) \<and>
     (script (fd fp) = [] \<longrightarrow> script (fd fp') = [])"

definition fresh_buffer :: "int \<Rightarrow> 'z cups_file \<Rightarrow> bool" where
  "fresh_buffer r fp' \<longleftrightarrow> ptr fp' = Some 0 \<and> endp fp' = Some (nat r)"

text \<open>A handle opened for writing without compression on an empty file.\<close>

definition open_write :: "zst cups_file" where
  "open_write = (cleared ZBad (file_of []))\<lparr>mode := CHR ''w'', ptr := Some 0, endp := Some BUFSIZE\<rparr>"



text \<open>
  A handle that writes a compressed file: opened with mode \<open>w9\<close> at clock 0 on an empty
  file, the header written, the byte \<open>a\<close> in the buffer. The next call on its
  descriptor will fail with \<open>EIO\<close>, the calls after it succeed.
\<close>

definition gz_writer :: "zst cups_file" where
  "gz_writer =
     (cleared ZBad \<lparr>fdata = gzip_header 0, foffset = 10, script = [EIO]\<rparr>)
       \<lparr>mode := CHR ''w'', ptr := Some 1, endp := Some BUFSIZE, buf := [0x61], pos := 1,
        zstate := ZOut [] False, compressed := True\<rparr>"



definition appends :: "os_file \<Rightarrow> os_file \<Rightarrow> bool" where
  "appends f f' \<longleftrightarrow>
     script f' = [] \<and> foffset f' = length (fdata f') \<and> (\<exists>x. fdata f' = fdata f @ x)"



text \<open>The handle \<open>cupsFileOpenFd\<close> returns for mode \<open>w9\<close> on an empty file.\<close>

definition gz_opened :: "zst cups_file" where
  "gz_opened =
     (cleared ZBad \<lparr>fdata = gzip_header 0, foffset = 10, script = []\<rparr>)
       \<lparr>mode := CHR ''w'', ptr := Some 0, endp := Some BUFSIZE,
        zstate := ZOut [] False, compressed := True\<rparr>"


text \<open>
  Two handles that read alike: they agree on the descriptor, the mode, the buffer
  pointers, the flags and the positions, on the bytes of the buffer below \<open>end\<close>, on
  \<open>compressed\<close> and, when compressed, on the decompressor and its CRC. They may
  differ in the stale bytes of the buffers and in a decompressor that is not in use.
\<close>

definition alike :: "'z cups_file \<Rightarrow> 'z cups_file \<Rightarrow> bool" where
  "alike a b \<longleftrightarrow>
     fd a = fd b \<and> mode a = mode b \<and> ptr a = ptr b \<and> endp a = endp b \<and> eof a = eof b \<and>
     pos a = pos b \<and> bufpos a = bufpos b \<and>
     take (off (endp a)) (buf a) = take (off (endp b)) (buf b) \<and>
     compressed a = compressed b \<and>
     (compressed a \<longrightarrow> zstate a = zstate b \<and> zin a = zin b \<and> crc a = crc b)"

text \<open>The handle \<open>cupsFileOpenFd\<close> returns for mode \<open>r\<close> on a file of bytes \<open>bs\<close>.\<close>

definition opened_for_read :: "'z \<Rightarrow> byte list \<Rightarrow> 'z cups_file" where
  "opened_for_read z0 bs = (cleared z0 (file_of bs))\<lparr>mode := CHR ''r''\<rparr>"

text \<open>The unread bytes of the buffer, from \<open>ptr\<close> up to \<open>end\<close>.\<close>

definition window :: "'z cups_file \<Rightarrow> byte list" where
  "window fp = take (off (endp fp) - off (ptr fp)) (drop (off (ptr fp)) (buf fp))"



text \<open>
  What a handle has still to deliver when its stream is passed through: the unread bytes
  of the buffer, then the bytes of the file from the descriptor's offset on.
\<close>

definition unread :: "'z cups_file \<Rightarrow> byte list" where
  "unread fp = window fp @ drop (foffset (fd fp)) (fdata (fd fp))"

text \<open>
  A read handle on a stream that is not gzip, over a file whose calls all succeed: either
  nothing was read yet and the file does not start with a gzip header, or the buffer is
  set up and the handle is not compressed. End of file is set only when nothing is left.
\<close>

definition raw_inv :: "'z cups_file \<Rightarrow> bool" where
  "raw_inv fp \<longleftrightarrow>
     mode fp = CHR ''r'' \<and> script (fd fp) = [] \<and>
     (case ptr fp of
        None \<Rightarrow> endp fp = None \<and> foffset (fd fp) = 0 \<and> not_gzip (take BUFSIZE (fdata (fd fp)))
      | Some p \<Rightarrow> \<not> compressed fp \<and>
          (case endp fp of None \<Rightarrow> False | Some e \<Rightarrow> p \<le> e \<and> e \<le> length (buf fp))) \<and>
     (if eof fp then unread fp = [] else True)"



section \<open>Properties of the raw reads\<close>

lemma sys_read_count:
  "sys_read f n = (cnt, d, e, f') \<Longrightarrow> 0 \<le> cnt \<Longrightarrow> cnt = int (length d) \<and> length d \<le> n"
  by (auto simp: sys_read_def Let_def split: sysres.splits)

lemma cups_read_fd_count:
  "cups_read_fd f n = (cnt, d, f') \<Longrightarrow> 0 \<le> cnt \<Longrightarrow> cnt = int (length d) \<and> length d \<le> n"
proof (induction f n rule: cups_read_fd.induct)
  case (1 f n)
  obtain c0 d0 e0 f0 where sr: "sys_read f n = (c0, d0, e0, f0)"
    by (cases "sys_read f n") auto
  show ?case
  proof (cases "0 \<le> c0")
    case True
    with sr "1.prems" sys_read_count [OF sr] show ?thesis
      by (simp add: cups_read_fd.simps [of f n])
  next
    case False
    show ?thesis
    proof (cases "e0 = EAGAIN \<or> e0 = EINTR")
      case True
      with False sr "1.prems" have "cups_read_fd f0 n = (cnt, d, f')"
        by (simp add: cups_read_fd.simps [of f n])
      with "1.IH" [OF sr [symmetric] refl refl False True] "1.prems" show ?thesis
        by simp
    next
      case F2: False
      with False sr "1.prems" show ?thesis
        by (simp add: cups_read_fd.simps [of f n])
    qed
  qed
qed

lemma cups_read_count:
  "cups_read fp n = (cnt, d, fp') \<Longrightarrow> 0 \<le> cnt \<Longrightarrow> cnt = int (length d) \<and> length d \<le> n"
  by (auto simp: cups_read_def split: prod.splits dest: cups_read_fd_count)

lemma sys_read_file:
  "sys_read f n = (cnt, d, e, f') \<Longrightarrow>
     fdata f' = fdata f \<and> (script f = [] \<longrightarrow> script f' = [])"
  by (auto simp: sys_read_def Let_def advance_def next_res_def split: sysres.splits list.splits)

lemma cups_read_fd_file:
  "cups_read_fd f n = (cnt, d, f') \<Longrightarrow>
     fdata f' = fdata f \<and> (script f = [] \<longrightarrow> script f' = [])"
proof (induction f n rule: cups_read_fd.induct)
  case (1 f n)
  obtain c0 d0 e0 f0 where sr: "sys_read f n = (c0, d0, e0, f0)"
    by (cases "sys_read f n") auto
  note sf = sys_read_file [OF sr]
  show ?case
  proof (cases "0 \<le> c0")
    case True
    with sr "1.prems" sf show ?thesis
      by (simp add: cups_read_fd.simps [of f n])
  next
    case False
    show ?thesis
    proof (cases "e0 = EAGAIN \<or> e0 = EINTR")
      case True
      with False sr "1.prems" have "cups_read_fd f0 n = (cnt, d, f')"
        by (simp add: cups_read_fd.simps [of f n])
      with "1.IH" [OF sr [symmetric] refl refl False True] sf show ?thesis
        by auto
    next
      case F2: False
      with False sr "1.prems" sf show ?thesis
        by (simp add: cups_read_fd.simps [of f n])
    qed
  qed
qed

lemma cups_read_handle:
  "cups_read fp n = (cnt, d, fp') \<Longrightarrow>
     \<exists>f'. fp' = fp\<lparr>fd := f'\<rparr> \<and> fdata f' = fdata (fd fp)
        \<and> (script (fd fp) = [] \<longrightarrow> script f' = [])"
  by (auto simp: cups_read_def split: prod.splits dest: cups_read_fd_file)

lemma window_store:
  "window (fp\<lparr>buf := store d b, ptr := Some 0, endp := Some (length d)\<rparr>) = d"
  by (simp add: window_def store_def off_def)

text \<open>Reading a file whose calls all succeed.\<close>

lemma cups_read_fd_ok:
  "script f = [] \<Longrightarrow>
   cups_read_fd f n =
     (int (length (take n (drop (foffset f) (fdata f)))), take n (drop (foffset f) (fdata f)),
      f\<lparr>foffset := foffset f + length (take n (drop (foffset f) (fdata f)))\<rparr>)"
  by (simp add: cups_read_fd.simps [of f n] sys_read_def next_res_def advance_def Let_def)

lemma cups_read_open_read:
  "cups_read ((open_read bs)\<lparr>compressed := False\<rparr>) n =
     (int (length (take n bs)), take n bs,
      (open_read bs)\<lparr>compressed := False, fd := (file_of bs)\<lparr>foffset := length (take n bs)\<rparr>\<rparr>)"
  by (simp add: cups_read_def open_read_def cleared_def file_of_def cups_read_fd_ok)

section \<open>The first fill of a stream that is not gzip\<close>

lemma fill_header_not_gzip:
  assumes rd: "cups_read (fp\<lparr>compressed := False\<rparr>) BUFSIZE = (n, d, fp1)"
      and n: "0 \<le> n" and ng: "not_gzip d"
  shows "fill_header Z fp =
           Return n (fp1\<lparr>buf := store d (buf fp1), ptr := Some 0, endp := Some (length d)\<rparr>)"
  using rd n ng by (simp add: fill_header_def Let_def)

lemma cups_fill_first_not_gzip:
  assumes p: "ptr fp = None"
      and rd: "cups_read (fp\<lparr>compressed := False\<rparr>) BUFSIZE = (n, d, fp1)"
      and n: "0 \<le> n" and ng: "not_gzip d"
  shows "cups_fill Z fp =
           Some (n, fp1\<lparr>buf := store d (buf fp1), ptr := Some 0, endp := Some (length d)\<rparr>)"
proof -
  have "cups_fill Z fp = cups_fill_loop Z fp"
    using p by (simp add: cups_fill_def fill_enter_def)
  also have "\<dots> = Some (n, fp1\<lparr>buf := store d (buf fp1), ptr := Some 0, endp := Some (length d)\<rparr>)"
    using p fill_header_not_gzip [OF rd n ng, of Z]
    by (subst cups_fill_loop.simps) simp
  finally show ?thesis .
qed

text \<open>
  C10. When the first fill of a handle (\<open>ptr\<close> is still null) reads fewer than ten
  bytes, whatever they are, the fill returns their count, the buffer's unread bytes are
  exactly the bytes read, and the handle is not marked compressed and not at end of file
  unless it was.
\<close>

theorem first_fill_short_is_raw:
  assumes "ptr fp = None"
      and "cups_read (fp\<lparr>compressed := False\<rparr>) BUFSIZE = (n, d, fp1)"
      and "0 \<le> n" and "n < 10"
  shows "\<exists>fp'. cups_fill Z fp = Some (n, fp') \<and> n = int (length d) \<and> window fp' = d
           \<and> ptr fp' = Some 0 \<and> compressed fp' = False \<and> eof fp' = eof fp"
proof -
  have len: "n = int (length d)"
    using cups_read_count [OF assms(2) assms(3)] by simp
  then have ng: "not_gzip d"
    using assms(4) by (simp add: not_gzip_def)
  obtain f' where fp1: "fp1 = fp\<lparr>compressed := False, fd := f'\<rparr>"
    using cups_read_handle [OF assms(2)] by auto
  show ?thesis
    using cups_fill_first_not_gzip [OF assms(1) assms(2) assms(3) ng, of Z] len fp1
    by (simp add: window_store)
qed

theorem first_fill_short_is_raw_witness:
  "\<exists>fp'. cups_fill stored_zlib (open_read [0x1f, 0x8b, 8]) = Some (3, fp')
     \<and> window fp' = [0x1f, 0x8b, 8] \<and> compressed fp' = False \<and> eof fp' = False"
proof -
  have p: "ptr (open_read [0x1f, 0x8b, 8]) = None"
    by (simp add: open_read_def cleared_def)
  have e: "eof (open_read [0x1f, 0x8b, 8]) = False"
    by (simp add: open_read_def cleared_def)
  have rd: "cups_read ((open_read [0x1f, 0x8b, 8])\<lparr>compressed := False\<rparr>) BUFSIZE =
      (3, [0x1f, 0x8b, 8],
       (open_read [0x1f, 0x8b, 8])\<lparr>compressed := False,
          fd := (file_of [0x1f, 0x8b, 8])\<lparr>foffset := 3\<rparr>\<rparr>)"
    by (simp add: cups_read_open_read BUFSIZE_def)
  show ?thesis
    using first_fill_short_is_raw [OF p rd, of stored_zlib] e by auto
qed

section \<open>Passing a stream through\<close>

lemma raw_fill:
  assumes inv: "raw_inv fp" and ex: "ptr_ge (ptr fp) (endp fp)"
  shows "\<exists>r fp'. cups_fill Z fp = Some (r, fp') \<and> raw_inv fp' \<and> unread fp' = unread fp
           \<and> fdata (fd fp') = fdata (fd fp) \<and> pos fp' = pos fp
           \<and> (if unread fp = [] then r \<le> 0
               else r > 0 \<and> ptr fp' = Some 0 \<and> endp fp' = Some (length (take BUFSIZE (unread fp)))
                    \<and> window fp' = take BUFSIZE (unread fp) \<and> \<not> eof fp')"
proof (cases "ptr fp")
  case None
  let ?d = "take BUFSIZE (fdata (fd fp))"
  from inv None have ng: "not_gzip ?d" and o: "foffset (fd fp) = 0" and sc: "script (fd fp) = []"
    and e: "endp fp = None" and m: "mode fp = CHR ''r''"
    by (auto simp: raw_inv_def)
  have rd: "cups_read (fp\<lparr>compressed := False\<rparr>) BUFSIZE =
      (int (length ?d), ?d, fp\<lparr>compressed := False, fd := (fd fp)\<lparr>foffset := length ?d\<rparr>\<rparr>)"
    using o sc by (simp add: cups_read_def cups_read_fd_ok)
  have un: "unread fp = fdata (fd fp)"
    using None e o by (simp add: unread_def window_def off_def)
  have ef: "eof fp \<Longrightarrow> fdata (fd fp) = []"
    using inv un by (auto simp: raw_inv_def split: if_splits)
  show ?thesis
    using cups_fill_first_not_gzip [OF None rd _ ng, of Z] un m sc ef
    by (auto simp: raw_inv_def unread_def window_def off_def store_def BUFSIZE_def min_def)
next
  case (Some p)
  from inv Some obtain e where e: "endp fp = Some e" and pe: "p \<le> e" and nc: "\<not> compressed fp"
    and sc: "script (fd fp) = []" and m: "mode fp = CHR ''r''"
    by (auto simp: raw_inv_def split: option.splits)
  from ex Some e pe have [simp]: "p = e" by (simp add: ptr_ge_def)
  let ?fp = "fp\<lparr>bufpos := bufpos fp + int e\<rparr>"
  let ?d = "take BUFSIZE (drop (foffset (fd fp)) (fdata (fd fp)))"
  have un: "unread fp = drop (foffset (fd fp)) (fdata (fd fp))"
    using Some e by (simp add: unread_def window_def off_def)
  have rd: "cups_read ?fp BUFSIZE =
      (int (length ?d), ?d, ?fp\<lparr>fd := (fd fp)\<lparr>foffset := foffset (fd fp) + length ?d\<rparr>\<rparr>)"
    using sc by (simp add: cups_read_def cups_read_fd_ok)
  have "cups_fill Z fp = cups_fill_loop Z ?fp"
    using Some e by (simp add: cups_fill_def fill_enter_def off_def)
  also have "\<dots> = Some (fill_raw ?fp)"
    using Some nc by (subst cups_fill_loop.simps) simp
  finally have cf: "cups_fill Z fp = Some (fill_raw ?fp)" .
  define d where "d = ?d"
  have dun: "d = take BUFSIZE (unread fp)" using un by (simp add: d_def)
  have rest: "d @ drop (foffset (fd fp) + length d) (fdata (fd fp)) = unread fp"
  proof -
    have "drop (foffset (fd fp) + length d) (fdata (fd fp)) = drop (length d) (unread fp)"
      by (simp add: un add.commute)
    then show ?thesis
      unfolding dun by (metis append_take_drop_id length_take min.commute take_all_iff drop_take
          append_eq_conv_conj)
  qed
  have rd': "cups_read ?fp BUFSIZE =
      (int (length d), d, ?fp\<lparr>fd := (fd fp)\<lparr>foffset := foffset (fd fp) + length d\<rparr>\<rparr>)"
    using rd by (simp only: d_def)
  show ?thesis
  proof (cases "d = []")
    case True
    then have "unread fp = []" using rest un by (simp add: d_def BUFSIZE_def)
    then show ?thesis
      using cf rd' True m sc Some e nc
      by (simp add: fill_raw_def raw_inv_def unread_def window_def off_def)
  next
    case False
    then have une: "unread fp \<noteq> []" using dun by auto
    have w: "window (?fp\<lparr>fd := (fd fp)\<lparr>foffset := foffset (fd fp) + length d\<rparr>,
                buf := store d (buf fp), eof := False, ptr := Some 0, endp := Some (length d)\<rparr>) = d"
      by (simp add: window_def store_def off_def)
    show ?thesis
      using cf rd' False m sc une Some e nc rest w dun [symmetric]
      by (simp add: fill_raw_def raw_inv_def unread_def store_def del: length_take)
  qed
qed


lemma raw_copy:
  assumes inv: "raw_inv fp1" and p: "ptr fp1 = Some p" and e: "endp fp1 = Some e"
      and pe: "p < e" and n: "0 < n"
  shows "\<exists>c fp2. read_copy fp1 n = (c, take c (unread fp1), fp2) \<and> raw_inv fp2
           \<and> unread fp2 = drop c (unread fp1) \<and> 0 < c \<and> c \<le> n \<and> c \<le> length (unread fp1)
           \<and> fdata (fd fp2) = fdata (fd fp1)"
proof -
  define c where "c = (if e - p > n then n else e - p)"
  define fp2 where "fp2 = fp1\<lparr>ptr := Some (p + c), pos := pos fp1 + int c\<rparr>"
  from inv p e have el: "e \<le> length (buf fp1)"
    by (auto simp: raw_inv_def)
  have w1: "window fp1 = take (e - p) (drop p (buf fp1))"
    using p e by (simp add: window_def off_def)
  have lw: "length (window fp1) = e - p"
    using w1 el pe by simp
  have c0: "0 < c" using c_def pe n by auto
  have cn: "c \<le> n" using c_def by auto
  have cw: "c \<le> e - p" using c_def by auto
  then have cl: "c \<le> length (unread fp1)" using lw by (simp add: unread_def)
  have ne: "\<not> eof fp1"
    using inv lw pe by (auto simp: raw_inv_def unread_def split: if_splits)
  have w2: "window fp2 = drop c (window fp1)"
    using p e cw by (simp add: fp2_def window_def off_def drop_take add.commute)
  have u2: "unread fp2 = drop c (unread fp1)"
    using w2 cw lw by (simp add: unread_def fp2_def)
  have ch: "take c (drop p (buf fp1)) = take c (unread fp1)"
    using cw lw by (simp add: unread_def w1 min_def)
  have i2: "raw_inv fp2"
    using inv p e cw pe ne u2 by (auto simp: raw_inv_def fp2_def)
  have "read_copy fp1 n = (c, take c (unread fp1), fp2)"
    using p e ch by (simp add: read_copy_def Let_def off_def c_def [symmetric] fp2_def)
  then show ?thesis
    using i2 u2 c0 cn cl by (auto simp: fp2_def)
qed

lemma raw_read_loop:
  assumes "raw_inv fp"
  shows "\<exists>fp'. read_loop Z fp n tot acc =
           Some ((if n \<le> length (unread fp) then int (tot + n)
                  else if tot + length (unread fp) > 0 then int (tot + length (unread fp))
                  else -1),
                 acc @ take n (unread fp), fp')
           \<and> raw_inv fp' \<and> unread fp' = drop n (unread fp) \<and> fdata (fd fp') = fdata (fd fp)"
  using assms
proof (induction n arbitrary: fp tot acc rule: less_induct)
  case (less n)
  show ?case
  proof (cases "n = 0")
    case True
    then show ?thesis
      using less.prems by (subst read_loop.simps) simp
  next
    case False
    then have n: "0 < n" by simp
    have step: "\<exists>fp'. read_loop Z fp n tot acc =
           Some ((if n \<le> length (unread fp1) then int (tot + n)
                  else if tot + length (unread fp1) > 0 then int (tot + length (unread fp1))
                  else -1),
                 acc @ take n (unread fp1), fp')
           \<and> raw_inv fp' \<and> unread fp' = drop n (unread fp1) \<and> fdata (fd fp') = fdata (fd fp1)"
      if rf: "read_fill Z fp tot = Some (Continue fp1)"
        and inv: "raw_inv fp1" and p: "ptr fp1 = Some p" and e: "endp fp1 = Some e" and pe: "p < e"
      for fp1 p e
    proof -
      from raw_copy [OF inv p e pe n] obtain c fp2 where
        rc: "read_copy fp1 n = (c, take c (unread fp1), fp2)" and i2: "raw_inv fp2"
        and u2: "unread fp2 = drop c (unread fp1)" and c0: "0 < c" and cn: "c \<le> n"
        and cl: "c \<le> length (unread fp1)" and f2: "fdata (fd fp2) = fdata (fd fp1)"
        by blast
      have lt: "n - c < n" using c0 n by simp
      from less.IH [OF lt i2, of "tot + c" "acc @ take c (unread fp1)"]
      obtain fp' where
        rl: "read_loop Z fp2 (n - c) (tot + c) (acc @ take c (unread fp1)) =
          Some ((if n - c \<le> length (unread fp2) then int (tot + c + (n - c))
                 else if tot + c + length (unread fp2) > 0 then int (tot + c + length (unread fp2))
                 else -1),
                (acc @ take c (unread fp1)) @ take (n - c) (unread fp2), fp')"
        and i': "raw_inv fp'" and u': "unread fp' = drop (n - c) (unread fp2)"
        and f': "fdata (fd fp') = fdata (fd fp2)"
        by blast
      have tk: "take c (unread fp1) @ take (n - c) (unread fp2) = take n (unread fp1)"
        using u2 cn by (metis le_add_diff_inverse take_add)
      have dr: "drop (n - c) (unread fp2) = drop n (unread fp1)"
        using u2 cn by simp
      have ln: "length (unread fp2) = length (unread fp1) - c"
        using u2 by simp
      have val: "(if n - c \<le> length (unread fp2) then int (tot + c + (n - c))
                 else if tot + c + length (unread fp2) > 0 then int (tot + c + length (unread fp2))
                 else -1) =
             (if n \<le> length (unread fp1) then int (tot + n)
              else if tot + length (unread fp1) > 0 then int (tot + length (unread fp1))
              else -1)"
        using ln c0 cn cl by auto
      have "read_loop Z fp n tot acc = read_loop Z fp2 (n - c) (tot + c) (acc @ take c (unread fp1))"
        using n rf rc by (subst read_loop.simps) simp
      then show ?thesis
        unfolding rl val using i' u' f' f2 tk dr by simp
    qed
    show ?thesis
    proof (cases "ptr_ge (ptr fp) (endp fp)")
      case True
      from raw_fill [OF less.prems True, of Z] obtain r fp1 where
        cf: "cups_fill Z fp = Some (r, fp1)" and i1: "raw_inv fp1" and u1: "unread fp1 = unread fp"
        and f1: "fdata (fd fp1) = fdata (fd fp)"
        and alt: "if unread fp = [] then r \<le> 0
               else r > 0 \<and> ptr fp1 = Some 0 \<and> endp fp1 = Some (length (take BUFSIZE (unread fp)))
                    \<and> window fp1 = take BUFSIZE (unread fp) \<and> \<not> eof fp1"
        by blast
      show ?thesis
      proof (cases "unread fp = []")
        case T: True
        with alt have "r \<le> 0" by simp
        then have "read_fill Z fp tot = Some (Return (if tot > 0 then int tot else -1) fp1)"
          using True cf by (simp add: read_fill_def)
        then show ?thesis
          using n T i1 u1 f1 by (subst read_loop.simps) simp
      next
        case F: False
        with alt have r: "r > 0" and p1: "ptr fp1 = Some 0"
          and e1: "endp fp1 = Some (length (take BUFSIZE (unread fp)))"
          by simp_all
        have pe1: "0 < length (take BUFSIZE (unread fp))"
          using F by (simp add: BUFSIZE_def)
        have rf: "read_fill Z fp tot = Some (Continue fp1)"
          using True cf r by (simp add: read_fill_def)
        show ?thesis using step [OF rf i1 p1 e1 pe1] by (simp only: u1 f1)
      qed
    next
      case False
      with less.prems obtain p e where p: "ptr fp = Some p" and e: "endp fp = Some e" and pe: "p < e"
        by (auto simp: raw_inv_def ptr_ge_def split: option.splits)
      have rf: "read_fill Z fp tot = Some (Continue fp)"
        using False by (simp add: read_fill_def)
      from step [OF rf less.prems p e pe] show ?thesis .
    qed
  qed
qed

text \<open>
  C3. Take a read handle over a file whose calls all succeed and whose first bytes fail the
  gzip test (too few bytes, wrong magic, wrong method byte or a reserved flag bit). Its
  first fill returns the first bytes of the file as they are, the bytes looked at
  included, and leaves the handle uncompressed. From then on every \<open>cupsFileRead\<close>
  of \<open>N > 0\<close> bytes returns the next \<open>N\<close> bytes of the file unchanged (fewer at the
  end of the file, -1 when nothing is left) and leaves a handle of which the same holds.
\<close>

theorem not_gzip_passthrough:
  assumes "raw_inv fp"
  shows "(ptr fp = None \<longrightarrow>
            (\<exists>fp'. cups_fill Z fp = Some (int (length (take BUFSIZE (fdata (fd fp)))), fp')
               \<and> window fp' = take BUFSIZE (fdata (fd fp)) \<and> \<not> compressed fp' \<and> raw_inv fp'))
       \<and> (0 < N \<longrightarrow>
            (\<exists>fp'. cupsFileRead Z fp N =
                      Some ((if unread fp = [] then -1 else int (length (take N (unread fp)))),
                            take N (unread fp), fp')
               \<and> raw_inv fp' \<and> unread fp' = drop N (unread fp)))"
proof (intro conjI impI)
  assume p: "ptr fp = None"
  from assms p have ng: "not_gzip (take BUFSIZE (fdata (fd fp)))" and o: "foffset (fd fp) = 0"
    and e: "endp fp = None"
    by (auto simp: raw_inv_def)
  have ex: "ptr_ge (ptr fp) (endp fp)"
    using p e by (simp add: ptr_ge_def)
  have un: "unread fp = fdata (fd fp)"
    using p e o by (simp add: unread_def window_def off_def)
  from raw_fill [OF assms ex, of Z] obtain r fp' where
    cf: "cups_fill Z fp = Some (r, fp')" and i: "raw_inv fp'"
    and alt: "if unread fp = [] then r \<le> 0
              else r > 0 \<and> ptr fp' = Some 0 \<and> endp fp' = Some (length (take BUFSIZE (unread fp)))
                   \<and> window fp' = take BUFSIZE (unread fp) \<and> \<not> eof fp'"
    by blast
  let ?d = "take BUFSIZE (fdata (fd fp))"
  have rd: "cups_read (fp\<lparr>compressed := False\<rparr>) BUFSIZE =
      (int (length ?d), ?d, fp\<lparr>compressed := False, fd := (fd fp)\<lparr>foffset := length ?d\<rparr>\<rparr>)"
    using o assms by (simp add: cups_read_def cups_read_fd_ok raw_inv_def)
  have cf2: "cups_fill Z fp = Some (int (length ?d),
      fp\<lparr>compressed := False, fd := (fd fp)\<lparr>foffset := length ?d\<rparr>,
         buf := store ?d (buf fp), ptr := Some 0, endp := Some (length ?d)\<rparr>)"
    using cups_fill_first_not_gzip [OF p rd _ ng, of Z] by simp
  show "\<exists>fp'. cups_fill Z fp = Some (int (length ?d), fp')
               \<and> window fp' = ?d \<and> \<not> compressed fp' \<and> raw_inv fp'"
    using cf cf2 i
      window_store [where fp = "fp\<lparr>compressed := False, fd := (fd fp)\<lparr>foffset := length ?d\<rparr>\<rparr>"
        and d = ?d and b = "buf fp"]
    by (auto simp del: length_take)
next
  assume n: "0 < N"
  have m: "mode fp = CHR ''r''" using assms by (simp add: raw_inv_def)
  show "\<exists>fp'. cupsFileRead Z fp N =
                Some ((if unread fp = [] then -1 else int (length (take N (unread fp)))),
                      take N (unread fp), fp')
               \<and> raw_inv fp' \<and> unread fp' = drop N (unread fp)"
  proof (cases "eof fp")
    case True
    then have "unread fp = []" using assms by (auto simp: raw_inv_def split: if_splits)
    then show ?thesis
      using True m n assms by (simp add: cupsFileRead_def)
  next
    case False
    from raw_read_loop [OF assms, of Z N 0 "[]"] obtain fp' where
      rl: "read_loop Z fp N 0 [] =
           Some ((if N \<le> length (unread fp) then int (0 + N)
                  else if 0 + length (unread fp) > 0 then int (0 + length (unread fp))
                  else -1),
                 [] @ take N (unread fp), fp')"
      and i: "raw_inv fp'" and u: "unread fp' = drop N (unread fp)"
      by blast
    have val: "(if N \<le> length (unread fp) then int (0 + N)
                  else if 0 + length (unread fp) > 0 then int (0 + length (unread fp))
                  else -1) =
               (if unread fp = [] then -1 else int (length (take N (unread fp))))"
      using n by (auto simp: min_def)
    show ?thesis
      using False m n rl i u unfolding val by (simp add: cupsFileRead_def)
  qed
qed

theorem not_gzip_passthrough_witness:
  "raw_inv (open_read [0x41, 0x42, 0x43])
   \<and> (\<exists>fp'. cups_fill stored_zlib (open_read [0x41, 0x42, 0x43]) = Some (3, fp')
         \<and> window fp' = [0x41, 0x42, 0x43] \<and> \<not> compressed fp')
   \<and> (\<exists>fp'. cupsFileRead stored_zlib (open_read [0x41, 0x42, 0x43]) 2 = Some (2, [0x41, 0x42], fp')
         \<and> unread fp' = [0x43])"
proof -
  have i: "raw_inv (open_read [0x41, 0x42, 0x43])"
    by (simp add: raw_inv_def open_read_def cleared_def file_of_def not_gzip_def unread_def
        window_def off_def BUFSIZE_def)
  have u: "unread (open_read [0x41, 0x42, 0x43]) = [0x41, 0x42, 0x43]"
    by (simp add: open_read_def cleared_def file_of_def unread_def window_def off_def)
  have p: "ptr (open_read [0x41, 0x42, 0x43]) = None"
    and f: "fdata (fd (open_read [0x41, 0x42, 0x43])) = [0x41, 0x42, 0x43]"
    by (simp_all add: open_read_def cleared_def file_of_def)
  show ?thesis
    using not_gzip_passthrough [OF i, of stored_zlib 2] i u p f
    by (simp add: BUFSIZE_def) blast
qed

section \<open>The trailer of a gzip member\<close>










section \<open>What follows the first gzip member\<close>

lemma cups_fill_after_member:
  assumes "ptr fp \<noteq> None" and "\<not> compressed fp"
  shows "cups_fill Z fp = Some (fill_raw (fill_enter fp))"
proof -
  have "ptr (fill_enter fp) \<noteq> None" and "\<not> compressed (fill_enter fp)"
    using assms by (simp_all add: fill_enter_def)
  then show ?thesis
    by (subst cups_fill_def, subst cups_fill_loop.simps) auto
qed

text \<open>
  C1. The file is the gzip member of the byte \<open>a\<close> followed, byte for byte, by the gzip
  member of the byte \<open>b\<close>. Reading two bytes returns one byte, \<open>a\<close>, and sets end of
  file: when the first trailer has matched, \<open>compressed\<close> is reset but \<open>ptr\<close> is not
  null, so the loop of \<open>cups_fill\<close> is not entered again, no header is looked for, the
  second member (still in \<open>cbuf\<close>) is dropped and the descriptor is read raw.
\<close>

theorem concatenated_members_read:
  "map_option (\<lambda>(r, out, fp'). (r, out, eof fp', zin fp'))
     (cupsFileRead stored_zlib (open_read (gz_a @ gz_b)) 2) = Some (1, [0x61], True, gz_b)"
  by code_simp

section \<open>The position, the buffer's position and the cursor\<close>

lemma fill_header_frame:
  "fill_header Z fp = Return r fp' \<Longrightarrow> same_place fp fp' \<and> (0 < r \<longrightarrow> fresh_buffer r fp')"
  "fill_header Z fp = Continue fp1 \<Longrightarrow> same_place fp fp1"
proof -
  obtain n d fpr where rd: "cups_read (fp\<lparr>compressed := False\<rparr>) BUFSIZE = (n, d, fpr)"
    by (cases "cups_read (fp\<lparr>compressed := False\<rparr>) BUFSIZE") auto
  from cups_read_handle [OF rd] obtain f' where fpr: "fpr = fp\<lparr>compressed := False, fd := f'\<rparr>"
    and ff: "fdata f' = fdata (fd fp)" "script (fd fp) = [] \<Longrightarrow> script f' = []"
    by auto
  have len: "0 \<le> n \<Longrightarrow> n = int (length d)"
    using cups_read_count [OF rd] by simp
  show "fill_header Z fp = Return r fp' \<Longrightarrow> same_place fp fp' \<and> (0 < r \<longrightarrow> fresh_buffer r fp')"
    using rd fpr len ff
    by (auto simp: fill_header_def Let_def same_place_def fresh_buffer_def
        split: prod.splits if_splits option.splits)
  show "fill_header Z fp = Continue fp1 \<Longrightarrow> same_place fp fp1"
    using rd fpr ff
    by (auto simp: fill_header_def Let_def same_place_def
        split: prod.splits if_splits option.splits)
qed

lemma fill_trailer_frame:
  "fill_trailer fp = Return r fp' \<Longrightarrow> same_place fp fp' \<and> r = -1"
  "fill_trailer fp = Continue fp1 \<Longrightarrow> same_place fp fp1"
  by (auto simp: fill_trailer_def Let_def same_place_def split: prod.splits if_splits
      dest: sys_read_file)

lemma fill_more_frame:
  "fill_more fp = Return r fp' \<Longrightarrow> same_place fp fp' \<and> r \<le> 0"
  "fill_more fp = Continue fp1 \<Longrightarrow> same_place fp fp1"
  by (auto simp: fill_more_def same_place_def split: prod.splits if_splits dest!: cups_read_handle)

lemma fill_decode_frame:
  "fill_decode Z fp = (status, out, fp4) \<Longrightarrow> same_place fp fp4"
  by (auto simp: fill_decode_def Let_def same_place_def split: prod.splits if_splits)

lemma fill_finish_frame:
  "fill_finish status out fp = Return r fp' \<Longrightarrow> same_place fp fp' \<and> (0 < r \<longrightarrow> fresh_buffer r fp')"
  "fill_finish status out fp = Continue fp1 \<Longrightarrow> same_place fp fp1 \<and> fresh_buffer 0 fp1"
  by (auto simp: fill_finish_def Let_def same_place_def fresh_buffer_def
      split: ctl.splits if_splits dest!: fill_trailer_frame)

lemma same_place_trans: "same_place a b \<Longrightarrow> same_place b c \<Longrightarrow> same_place a c"
  by (simp add: same_place_def)

lemma fill_inflate_frame:
  "fill_inflate Z fp = Return r fp' \<Longrightarrow> same_place fp fp' \<and> (0 < r \<longrightarrow> fresh_buffer r fp')"
  "fill_inflate Z fp = Continue fp1 \<Longrightarrow> same_place fp fp1 \<and> fresh_buffer 0 fp1"
  by (auto simp: fill_inflate_def split: ctl.splits if_splits prod.splits
      dest!: fill_more_frame fill_decode_frame fill_finish_frame
      intro: same_place_trans simp: same_place_def)

lemma fill_raw_frame:
  "fill_raw fp = (r, fp') \<Longrightarrow> same_place fp fp' \<and> (if 0 < r then fresh_buffer r fp' else fresh_buffer 0 fp')"
proof -
  assume a: "fill_raw fp = (r, fp')"
  obtain n d fpr where rd: "cups_read fp BUFSIZE = (n, d, fpr)"
    by (cases "cups_read fp BUFSIZE") auto
  from cups_read_handle [OF rd] obtain f' where fpr: "fpr = fp\<lparr>fd := f'\<rparr>"
    and ff: "fdata f' = fdata (fd fp)" "script (fd fp) = [] \<Longrightarrow> script f' = []"
    by auto
  have len: "0 \<le> n \<Longrightarrow> n = int (length d)"
    using cups_read_count [OF rd] by simp
  show ?thesis
    using a rd fpr len ff
    by (auto simp: fill_raw_def same_place_def fresh_buffer_def split: if_splits)
qed

lemma cups_fill_loop_frame:
  assumes "cups_fill_loop Z0 fp0 = Some y0"
  shows "same_place fp0 (snd y0) \<and> (0 < fst y0 \<longrightarrow> fresh_buffer (fst y0) (snd y0))"
proof (rule cups_fill_loop.raw_induct
    [where P = "\<lambda>Z fp y. same_place fp (snd y) \<and> (0 < fst y \<longrightarrow> fresh_buffer (fst y) (snd y))",
      OF _ assms], goal_cases)
  case (1 cups_fill_loop Z fp y)
  show ?case
  proof (cases "ptr fp = None \<or> compressed fp")
    case False
    with "1"(2) have "fill_raw fp = (fst y, snd y)" by auto
    from fill_raw_frame [OF this] show ?thesis by (auto split: if_splits)
  next
    case True
    show ?thesis
    proof (cases "if ptr fp = None then fill_header Z fp else Continue fp")
      case (Return r fp')
      with True "1"(2) have y: "y = (r, fp')" by simp
      from Return have "fill_header Z fp = Return r fp'" by (auto split: if_splits)
      from fill_header_frame(1) [OF this] y show ?thesis by simp
    next
      case (Continue fp1)
      have s1: "same_place fp fp1"
        using Continue fill_header_frame(2) [of Z fp fp1] by (auto simp: same_place_def split: if_splits)
      show ?thesis
      proof (cases "if compressed fp1 then fill_inflate Z fp1 else Continue fp1")
        case (Return r fp')
        with True Continue "1"(2) have y: "y = (r, fp')" by simp
        from Return have "fill_inflate Z fp1 = Return r fp'" by (auto split: if_splits)
        from fill_inflate_frame(1) [OF this] y s1 show ?thesis
          by (auto intro: same_place_trans)
      next
        case C2: (Continue fp2)
        have s2: "same_place fp1 fp2"
          using C2 fill_inflate_frame(2) [of Z fp1 fp2] by (auto simp: same_place_def split: if_splits)
        from True Continue C2 "1"(2) have "cups_fill_loop Z fp2 = Some y" by simp
        from "1"(1) [OF this] s1 s2 show ?thesis
          by (auto intro: same_place_trans)
      qed
    qed
  qed
qed


















section \<open>Formatted writes that do not fit\<close>

lemma open_write_is_opened:
  "cupsFileOpenFd stored_zlib ZBad t (file_of []) ''w'' = Some open_write"
  by (simp add: cupsFileOpenFd_def open_write_def chr_at_def isdigit_def Let_def)

text \<open>
  C9. The buffer starts at 1024 bytes and is grown to the rendered size plus the
  terminator (\<open>printf_grows_to_fit\<close> below). But for a rendered size above 65535 the
  function leaves by \<open>return (-1)\<close>, which a function returning \<open>bool\<close> turns into
  \<open>true\<close>: the call reports success although nothing was written, on every handle open
  for writing whose printf buffer is not yet allocated or within its bound.
\<close>

theorem printf_too_long_returns_true:
  assumes m: "mode fp = CHR ''w'' \<or> mode fp = CHR ''s''"
      and sz: "printf_buffer fp = None \<or> printf_size fp \<le> 65536"
      and len: "length s > 65535"
  shows "\<exists>fp'. cupsFilePrintf Z fp s = Some (True, fp')
           \<and> fd fp' = fd fp \<and> buf fp' = buf fp \<and> ptr fp' = ptr fp \<and> pos fp' = pos fp
           \<and> zout fp' = zout fp \<and> crc fp' = crc fp"
  using assms
  by (auto simp: cupsFilePrintf_def Let_def c_bool_def)

theorem printf_too_long_returns_true_witness:
  "\<exists>fp'. cupsFilePrintf stored_zlib open_write (replicate 65536 0x41) = Some (True, fp')
     \<and> fd fp' = fd open_write \<and> ptr fp' = Some 0"
proof -
  have m: "mode open_write = CHR ''w'' \<or> mode open_write = CHR ''s''"
    by (simp add: open_write_def)
  have sz: "printf_buffer open_write = None \<or> printf_size open_write \<le> 65536"
    by (simp add: open_write_def cleared_def)
  have len: "length (replicate 65536 (0x41 :: byte)) > 65535" by simp
  have p: "ptr open_write = Some 0" by (simp add: open_write_def)
  from printf_too_long_returns_true [OF m sz len, of stored_zlib] p show ?thesis by auto
qed

lemma printf_grows_to_fit:
  assumes m: "mode fp = CHR ''w''" and "printf_buffer fp = None"
      and "1024 \<le> length s" and "length s \<le> 4096" and "off (ptr fp) + length s \<le> off (endp fp)"
      and "\<not> is_stdio fp"
  shows "\<exists>fp'. cupsFilePrintf Z fp s = Some (True, fp') \<and> printf_size fp' = length s + 1
           \<and> printf_buffer fp' = Some s"
  using assms
  by (auto simp: cupsFilePrintf_def Let_def c_bool_def vsnprintf_def BUFSIZE_def)


section \<open>Configuration lines\<close>











section \<open>Closing a compressed file when a write fails\<close>

lemma gz_writer_reached:
  "Option.bind (cupsFileOpenFd stored_zlib ZBad 0 \<lparr>fdata = [], foffset = 0, script = [OK, EIO]\<rparr> ''w9'')
     (\<lambda>fp. cupsFileWrite stored_zlib fp [0x61]) = Some (True, gz_writer)"
  by code_simp

lemma cups_write_fd_empty: "cups_write_fd f [] = (True, f)"
  by (simp add: cups_write_fd.simps)

lemma cups_write_fd_ok:
  assumes "script f = []" and "bs \<noteq> []"
  shows "cups_write_fd f bs =
     (True, f\<lparr>fdata := take (foffset f) (fdata f) @ bs @ drop (foffset f + length bs) (fdata f),
              foffset := foffset f + length bs\<rparr>)"
  using assms
  by (subst cups_write_fd.simps)
     (simp add: sys_write_def next_res_def advance_def cups_write_fd_empty)

lemma cups_write_fd_eio:
  assumes "script f = EIO # rest" and "bs \<noteq> []"
  shows "cups_write_fd f bs = (False, f\<lparr>script := rest\<rparr>)"
  using assms
  by (subst cups_write_fd.simps) (simp add: sys_write_def next_res_def advance_def)

lemma close_release_ok:
  assumes "\<not> is_stdio fp" and "mode fp = CHR ''w''" and "script (fd fp) = []"
  shows "close_release fp status ended =
     \<lparr>c_status = status, c_file = fd fp, c_stream_ended = ended, c_freed = True,
      c_fd_closed = True\<rparr>"
  using assms by (simp add: close_release_def sys_close_def next_res_def advance_def)

lemma trailer_length: "length (trailer fp) = 8"
  by (simp add: trailer_def)

text \<open>
  C5. A compressed write handle is closed. Its buffered bytes flush into the compressor
  without a file access, compressed bytes are waiting in \<open>cbuf\<close>, and the write of
  \<open>cbuf\<close> fails with \<open>EIO\<close> while the later calls succeed. The drain loop stops,
  but the status of the failed write is overwritten by the status of the trailer's write:
  \<open>cupsFileClose\<close> returns true. The compressor is ended, the memory freed and the
  descriptor closed; the file holds the trailer where the compressed data should be.
  (When it is the flush that fails, the close returns false but \<open>deflateEnd\<close> is not
  called: \<open>close_after_failed_flush\<close> below.)
\<close>

theorem close_succeeds_after_failed_drain:
  assumes fl: "mode fp = CHR ''w''" "cupsFileFlush Z fp = Some (True, fp1)"
      and h1: "mode fp1 = CHR ''w''" "compressed fp1" "\<not> is_stdio fp1"
      and zo: "zout fp1 \<noteq> []" and sc: "script (fd fp1) = [EIO]"
  shows "\<exists>res. cupsFileClose Z fp = Some res \<and> c_status res \<and> c_stream_ended res
           \<and> c_freed res \<and> c_fd_closed res
           \<and> fdata (c_file res) =
               take (foffset (fd fp1)) (fdata (fd fp1)) @ trailer fp1
                 @ drop (foffset (fd fp1) + 8) (fdata (fd fp1))"
proof -
  let ?f1 = "(fd fp1)\<lparr>script := []\<rparr>"
  let ?fp2 = "fp1\<lparr>zin := [], fd := ?f1, zout := []\<rparr>"
  have cw: "cups_write (fp1\<lparr>zin := []\<rparr>) (zout (fp1\<lparr>zin := []\<rparr>)) = (False, fp1\<lparr>zin := [], fd := ?f1\<rparr>)"
    using cups_write_fd_eio [of "fd fp1" "[]" "zout fp1"] sc zo by (simp add: cups_write_def)
  have dl: "drain_loop Z (fp1\<lparr>zin := []\<rparr>) False True = Some (False, ?fp2)"
    using zo cw by (subst drain_loop.simps) simp
  have tr: "trailer ?fp2 = trailer fp1" by (simp add: trailer_def)
  have tne: "trailer fp1 \<noteq> []" using trailer_length [of fp1] by auto
  let ?f3 = "?f1\<lparr>fdata := take (foffset ?f1) (fdata ?f1) @ trailer fp1
                           @ drop (foffset ?f1 + length (trailer fp1)) (fdata ?f1),
                  foffset := foffset ?f1 + length (trailer fp1)\<rparr>"
  have cw2: "cups_write ?fp2 (trailer ?fp2) = (True, ?fp2\<lparr>fd := ?f3\<rparr>)"
    using cups_write_fd_ok [of ?f1 "trailer fp1"] tne by (simp add: cups_write_def tr)
  have cr: "close_release (?fp2\<lparr>fd := ?f3\<rparr>) True True =
     \<lparr>c_status = True, c_file = ?f3, c_stream_ended = True, c_freed = True, c_fd_closed = True\<rparr>"
    using h1 by (subst close_release_ok) simp_all
  have "cupsFileClose Z fp =
     Some \<lparr>c_status = True, c_file = ?f3, c_stream_ended = True, c_freed = True, c_fd_closed = True\<rparr>"
    using fl h1 dl cw2 cr by (simp add: cupsFileClose_def)
  then show ?thesis
    by (simp add: trailer_length)
qed

lemma close_after_failed_flush:
  assumes "mode fp = CHR ''w''" and "cupsFileFlush Z fp = Some (False, fp1)"
      and "mode fp1 = CHR ''w''"
  shows "cupsFileClose Z fp = Some (close_release fp1 False False)"
    and "\<not> c_stream_ended (close_release fp1 False False)"
    and "\<not> c_status (close_release fp1 False False)"
  using assms
  by (auto simp: cupsFileClose_def close_release_def cupsFileFlush_def
      split: prod.splits if_splits)

theorem close_succeeds_after_failed_drain_witness:
  "\<exists>res. cupsFileClose stored_zlib gz_writer = Some res \<and> c_status res \<and> c_stream_ended res
     \<and> c_freed res \<and> c_fd_closed res
     \<and> fdata (c_file res) = gzip_header 0 @ [0x43, 0xbe, 0xb7, 0xe8, 1, 0, 0, 0]"
proof -
  define W1 where "W1 = gz_writer\<lparr>crc := 0xE8B7BE43, zin := [], zout := [0, 1, 0, 0xfe, 0xff, 0x61],
                                 ptr := Some 0\<rparr>"
  have m: "mode gz_writer = CHR ''w''" by (simp add: gz_writer_def)
  have crc_a: "crc32 0 [0x61] = 0xE8B7BE43" by code_simp
  have "cups_compress stored_zlib gz_writer [0x61] =
      Some (True, gz_writer\<lparr>crc := 0xE8B7BE43, zin := [], zout := [0, 1, 0, 0xfe, 0xff, 0x61]\<rparr>)"
    unfolding cups_compress_def
    by (subst compress_loop.simps, subst compress_loop.simps)
       (simp add: gz_writer_def cleared_def deflate_def stored_zlib_def stored_deflate_def
          stored_block_def CBUFSIZE_def Z_NO_FLUSH_def Z_OK_def Z_BUF_ERROR_def Let_def crc_a)
  then have fl: "cupsFileFlush stored_zlib gz_writer = Some (True, W1)"
    by (simp add: W1_def cupsFileFlush_def gz_writer_def cleared_def off_def Let_def)
  have h1: "mode W1 = CHR ''w''" "compressed W1" "\<not> is_stdio W1"
    by (simp_all add: W1_def gz_writer_def cleared_def)
  have zo: "zout W1 \<noteq> []" by (simp add: W1_def)
  have sc: "script (fd W1) = [EIO]" by (simp add: W1_def gz_writer_def cleared_def)
  have tr: "trailer W1 = [0x43, 0xbe, 0xb7, 0xe8, 1, 0, 0, 0]"
    unfolding W1_def by code_simp
  have fdw: "fdata (fd W1) = gzip_header 0" "foffset (fd W1) = 10"
    by (simp_all add: W1_def gz_writer_def cleared_def)
  from close_succeeds_after_failed_drain [OF m fl h1 zo sc] show ?thesis
    by (simp add: tr fdw gzip_header_def)
qed


section \<open>The trailer written by the close\<close>

lemma appends_refl: "script f = [] \<Longrightarrow> foffset f = length (fdata f) \<Longrightarrow> appends f f"
  by (simp add: appends_def)

lemma appends_trans: "appends f g \<Longrightarrow> appends g h \<Longrightarrow> appends f h"
  by (auto simp: appends_def)















lemma gz_opened_is_opened:
  "cupsFileOpenFd stored_zlib ZBad 0 (file_of []) ''w9'' = Some gz_opened"
  by code_simp








section \<open>Reading again after a rewind\<close>

text \<open>
  Two handles are \<^emph>\<open>alike\<close> when they agree on everything a read looks at: the
  descriptor, the cursor, the positions, the filled part of the buffer and, while the stream is
  compressed, the decoder state.  Reads of alike handles return the same count and the same bytes
  and leave alike handles.
\<close>

lemma store_take:
  "take e a = take e b \<Longrightarrow> take e (store d a) = take e (store d b)"
proof -
  assume h: "take e a = take e b"
  have "\<And>x. take e (store d x) = take e d @ drop (length d) (take e x)"
    by (simp add: store_def drop_take)
  then show ?thesis using h by simp
qed

lemma store_take_self: "take (length d) (store d a) = d"
  by (simp add: store_def)

lemma cups_read_alike:
  "fd a = fd b \<Longrightarrow> cups_read a n = (c, d, a')
     \<Longrightarrow> \<exists>f'. a' = a\<lparr>fd := f'\<rparr> \<and> cups_read b n = (c, d, b\<lparr>fd := f'\<rparr>)"
  by (auto simp: cups_read_def split: prod.splits)

lemma fill_header_alike:
  assumes "alike a b"
  shows "rel_ctl alike (fill_header Z a) (fill_header Z b)"
proof -
  obtain c d a' where ra: "cups_read (a\<lparr>compressed := False\<rparr>) BUFSIZE = (c, d, a')"
    by (cases "cups_read (a\<lparr>compressed := False\<rparr>) BUFSIZE") auto
  have "fd (a\<lparr>compressed := False\<rparr>) = fd (b\<lparr>compressed := False\<rparr>)"
    using assms by (simp add: alike_def)
  from cups_read_alike [OF this ra] obtain f' where
    a': "a' = a\<lparr>compressed := False, fd := f'\<rparr>"
    and rb: "cups_read (b\<lparr>compressed := False\<rparr>) BUFSIZE = (c, d, b\<lparr>compressed := False, fd := f'\<rparr>)"
    by auto
  have tk: "take (off (endp a)) (store d (buf a)) = take (off (endp b)) (store d (buf b))"
  proof -
    have e: "off (endp a) = off (endp b)" and t: "take (off (endp a)) (buf a) = take (off (endp a)) (buf b)"
      using assms by (auto simp: alike_def)
    from store_take [OF t, of d] e show ?thesis by simp
  qed
  show ?thesis
    using assms ra rb tk unfolding a'
    by (auto simp: fill_header_def Let_def alike_def off_def store_take_self
        split: option.splits prod.splits)
qed


lemma alike_take:
  "alike a b \<Longrightarrow> take (off (endp a)) (store d (buf a)) = take (off (endp b)) (store d (buf b))"
proof -
  assume h: "alike a b"
  have e: "off (endp a) = off (endp b)"
    and t: "take (off (endp a)) (buf a) = take (off (endp a)) (buf b)"
    using h by (auto simp: alike_def)
  from store_take [OF t, of d] e show ?thesis by simp
qed

lemma fill_more_alike:
  assumes "alike a b" and "compressed a"
  shows "rel_ctl (\<lambda>x y. alike x y \<and> compressed x) (fill_more a) (fill_more b)"
proof (cases "zin a = []")
  case False
  with assms show ?thesis by (auto simp: fill_more_def alike_def)
next
  case True
  obtain c d a' where ra: "cups_read a BUFSIZE = (c, d, a')"
    by (cases "cups_read a BUFSIZE") auto
  have "fd a = fd b" using assms by (simp add: alike_def)
  from cups_read_alike [OF this ra] obtain f' where
    a': "a' = a\<lparr>fd := f'\<rparr>" and rb: "cups_read b BUFSIZE = (c, d, b\<lparr>fd := f'\<rparr>)"
    by auto
  show ?thesis
    using assms True ra rb unfolding a'
    by (auto simp: fill_more_def alike_def)
qed

lemma fill_decode_alike:
  assumes "alike a b" and "compressed a"
  shows "\<exists>status out a4 b4. fill_decode Z a = (status, out, a4) \<and> fill_decode Z b = (status, out, b4)
           \<and> alike a4 b4 \<and> compressed a4
           \<and> take (length out) (buf a4) = take (length out) (buf b4)"
proof -
  obtain status n out st' where inf: "inflate Z (zstate a) (zin a) BUFSIZE = (status, n, out, st')"
    by (cases "inflate Z (zstate a) (zin a) BUFSIZE") auto
  have eqs: "zstate b = zstate a" "zin b = zin a" "crc b = crc a"
    using assms by (auto simp: alike_def)
  show ?thesis
    using assms inf alike_take [OF assms(1), of out]
    by (auto simp: fill_decode_def Let_def eqs alike_def store_take_self)
qed

lemma fill_trailer_alike:
  assumes "alike a b" and "compressed a"
  shows "rel_ctl (\<lambda>x y. alike x y \<and> buf x = buf a \<and> buf y = buf b) (fill_trailer a) (fill_trailer b)"
proof -
  have eqs: "zin b = zin a" "crc b = crc a" "fd b = fd a"
    using assms by (auto simp: alike_def)
  obtain n d e f' where sr: "sys_read (fd a) (8 - (if length (zin a) > 0 then (if length (zin a) > 8 then 8 else length (zin a))
                    else 0)) = (n, d, e, f')"
    by (cases "sys_read (fd a) (8 - (if length (zin a) > 0 then (if length (zin a) > 8 then 8 else length (zin a))
                    else 0))") auto
  show ?thesis
    using assms sr
    by (auto simp: fill_trailer_def Let_def eqs alike_def split: if_splits)
qed

lemma alike_new_buffer:
  assumes "alike x y" and "take k (buf x) = take k (buf y)"
  shows "alike (x\<lparr>ptr := Some 0, endp := Some k\<rparr>) (y\<lparr>ptr := Some 0, endp := Some k\<rparr>)"
  using assms by (auto simp: alike_def off_def)

lemma fill_finish_alike:
  assumes al: "alike a b" and c: "compressed a"
      and tk: "take (length out) (buf a) = take (length out) (buf b)"
  shows "rel_ctl alike (fill_finish status out a) (fill_finish status out b)"
proof -
  define ca where "ca = (if status = Z_STREAM_END then fill_trailer a
            else if status < Z_OK then Return (-1) (a\<lparr>eof := True\<rparr>)
            else Continue a)"
  define cb where "cb = (if status = Z_STREAM_END then fill_trailer b
            else if status < Z_OK then Return (-1) (b\<lparr>eof := True\<rparr>)
            else Continue b)"
  have r: "rel_ctl (\<lambda>x y. alike x y \<and> buf x = buf a \<and> buf y = buf b) ca cb"
    using al fill_trailer_alike [OF al c]
    by (auto simp: ca_def cb_def alike_def)
  have fa: "fill_finish status out a = (case ca of
        Return r fp' \<Rightarrow> Return r fp'
      | Continue fp5 \<Rightarrow>
          if int (length out) \<noteq> 0 then Return (int (length out)) (fp5\<lparr>ptr := Some 0, endp := Some (length out)\<rparr>)
          else Continue (fp5\<lparr>ptr := Some 0, endp := Some (length out)\<rparr>))"
    by (auto simp: fill_finish_def ca_def Let_def split: ctl.splits)
  have fb: "fill_finish status out b = (case cb of
        Return r fp' \<Rightarrow> Return r fp'
      | Continue fp5 \<Rightarrow>
          if int (length out) \<noteq> 0 then Return (int (length out)) (fp5\<lparr>ptr := Some 0, endp := Some (length out)\<rparr>)
          else Continue (fp5\<lparr>ptr := Some 0, endp := Some (length out)\<rparr>))"
    by (auto simp: fill_finish_def cb_def Let_def split: ctl.splits)
  show ?thesis
  proof (cases ca)
    case (Return r x)
    with r obtain y where "cb = Return r y" and "alike x y"
      by (cases cb) auto
    with Return show ?thesis by (simp add: fa fb)
  next
    case (Continue x)
    with r obtain y where cb: "cb = Continue y" and xy: "alike x y" and bx: "buf x = buf a" "buf y = buf b"
      by (cases cb) auto
    have "take (length out) (buf x) = take (length out) (buf y)" using tk bx by simp
    from alike_new_buffer [OF xy this] Continue cb show ?thesis
      by (auto simp: fa fb)
  qed
qed

lemma fill_inflate_alike:
  assumes al: "alike a b" and c: "compressed a"
  shows "rel_ctl alike (fill_inflate Z a) (fill_inflate Z b)"
proof (cases "eof a")
  case True
  with al show ?thesis by (auto simp: fill_inflate_def alike_def)
next
  case False
  then have eb: "\<not> eof b" using al by (simp add: alike_def)
  note fm = fill_more_alike [OF al c]
  show ?thesis
  proof (cases "fill_more a")
    case (Return r x)
    with fm obtain y where "fill_more b = Return r y" and "alike x y"
      by (cases "fill_more b") auto
    with Return False eb show ?thesis by (simp add: fill_inflate_def)
  next
    case (Continue x)
    with fm obtain y where fb: "fill_more b = Continue y" and xy: "alike x y" and cx: "compressed x"
      by (cases "fill_more b") auto
    from fill_decode_alike [OF xy cx, of Z] obtain status out a4 b4 where
      da: "fill_decode Z x = (status, out, a4)" and db: "fill_decode Z y = (status, out, b4)"
      and a4: "alike a4 b4" and c4: "compressed a4"
      and t4: "take (length out) (buf a4) = take (length out) (buf b4)"
      by blast
    from fill_finish_alike [OF a4 c4 t4, of status] Continue fb da db False eb show ?thesis
      by (simp add: fill_inflate_def)
  qed
qed

lemma fill_raw_alike:
  assumes al: "alike a b"
  shows "fst (fill_raw a) = fst (fill_raw b) \<and> alike (snd (fill_raw a)) (snd (fill_raw b))"
proof -
  obtain c d a' where ra: "cups_read a BUFSIZE = (c, d, a')"
    by (cases "cups_read a BUFSIZE") auto
  have "fd a = fd b" using al by (simp add: alike_def)
  from cups_read_alike [OF this ra] obtain f' where
    a': "a' = a\<lparr>fd := f'\<rparr>" and rb: "cups_read b BUFSIZE = (c, d, b\<lparr>fd := f'\<rparr>)"
    by auto
  show ?thesis
    using al ra rb unfolding a'
    by (auto simp: fill_raw_def alike_def off_def store_take_self)
qed

lemma cups_fill_loop_alike:
  assumes "cups_fill_loop Z0 a0 = Some y0"
  shows "\<forall>b. alike a0 b \<longrightarrow> (\<exists>b'. cups_fill_loop Z0 b = Some (fst y0, b') \<and> alike (snd y0) b')"
proof (rule cups_fill_loop.raw_induct
    [where P = "\<lambda>Z a y. \<forall>b. alike a b \<longrightarrow> (\<exists>b'. cups_fill_loop Z b = Some (fst y, b') \<and> alike (snd y) b')",
      OF _ assms], goal_cases)
  case (1 f Z a y)
  show ?case
  proof (intro allI impI)
    fix b assume ab: "alike a b"
    have pc: "ptr b = ptr a" "compressed b = compressed a" using ab by (auto simp: alike_def)
    show "\<exists>b'. cups_fill_loop Z b = Some (fst y, b') \<and> alike (snd y) b'"
    proof (cases "ptr a = None \<or> compressed a")
      case False
      with "1"(2) have y: "y = fill_raw a" by auto
      have "cups_fill_loop Z b = Some (fill_raw b)"
        using False pc by (subst cups_fill_loop.simps) auto
      with fill_raw_alike [OF ab] y show ?thesis
        by (cases "fill_raw b") auto
    next
      case True
      define ha where "ha = (if ptr a = None then fill_header Z a else Continue a)"
      define hb where "hb = (if ptr b = None then fill_header Z b else Continue b)"
      have rh: "rel_ctl alike ha hb"
        using ab fill_header_alike [OF ab, of Z] pc by (simp add: ha_def hb_def)
      have lb: "cups_fill_loop Z b = (case hb of
           Return r fp' \<Rightarrow> Some (r, fp')
         | Continue fp1 \<Rightarrow>
             (case (if compressed fp1 then fill_inflate Z fp1 else Continue fp1) of
                Return r fp' \<Rightarrow> Some (r, fp')
              | Continue fp2 \<Rightarrow> cups_fill_loop Z fp2))"
        using True pc by (subst cups_fill_loop.simps) (simp add: hb_def)
      have la: "(case ha of
           Return r fp' \<Rightarrow> Some (r, fp')
         | Continue fp1 \<Rightarrow>
             (case (if compressed fp1 then fill_inflate Z fp1 else Continue fp1) of
                Return r fp' \<Rightarrow> Some (r, fp')
              | Continue fp2 \<Rightarrow> f Z fp2)) = Some y"
        using True "1"(2) by (simp add: ha_def)
      show ?thesis
      proof (cases ha)
        case (Return r x)
        with rh obtain x' where hb': "hb = Return r x'" and "alike x x'"
          by (cases hb) auto
        with Return la lb show ?thesis by auto
      next
        case (Continue a1)
        with rh obtain b1 where hb': "hb = Continue b1" and a1b1: "alike a1 b1"
          by (cases hb) auto
        define ia where "ia = (if compressed a1 then fill_inflate Z a1 else Continue a1)"
        define ib where "ib = (if compressed b1 then fill_inflate Z b1 else Continue b1)"
        have cb1: "compressed b1 = compressed a1" using a1b1 by (auto simp: alike_def)
        have ri: "rel_ctl alike ia ib"
          using a1b1 fill_inflate_alike [OF a1b1, of Z] cb1 by (simp add: ia_def ib_def)
        from la Continue have la2: "(case ia of Return r fp' \<Rightarrow> Some (r, fp')
              | Continue fp2 \<Rightarrow> f Z fp2) = Some y" by (simp add: ia_def)
        from lb hb' have lb2: "cups_fill_loop Z b = (case ib of Return r fp' \<Rightarrow> Some (r, fp')
              | Continue fp2 \<Rightarrow> cups_fill_loop Z fp2)" by (simp add: ib_def)
        show ?thesis
        proof (cases ia)
          case (Return r x)
          with ri obtain x' where "ib = Return r x'" and "alike x x'"
            by (cases ib) auto
          with Return la2 lb2 show ?thesis by auto
        next
          case C2: (Continue a2)
          with ri obtain b2 where ib': "ib = Continue b2" and a2b2: "alike a2 b2"
            by (cases ib) auto
          from la2 C2 have "f Z a2 = Some y" by simp
          from "1"(1) [OF this] a2b2 lb2 ib' show ?thesis by auto
        qed
      qed
    qed
  qed
qed

lemma fill_enter_alike: "alike a b \<Longrightarrow> alike (fill_enter a) (fill_enter b)"
  by (auto simp: fill_enter_def alike_def)

lemma cups_fill_alike:
  assumes "cups_fill Z a = Some (r, a')" and "alike a b"
  shows "\<exists>b'. cups_fill Z b = Some (r, b') \<and> alike a' b'"
  using cups_fill_loop_alike [of Z "fill_enter a" "(r, a')"] assms fill_enter_alike [OF assms(2)]
  by (simp add: cups_fill_def)


lemma read_fill_alike:
  assumes "read_fill Z a tot = Some ca" and "alike a b"
  shows "\<exists>cb. read_fill Z b tot = Some cb \<and> rel_ctl alike ca cb"
proof (cases "ptr_ge (ptr a) (endp a)")
  case False
  with assms show ?thesis by (auto simp: read_fill_def alike_def)
next
  case True
  then have tb: "ptr_ge (ptr b) (endp b)" using assms(2) by (auto simp: alike_def)
  from True assms(1) obtain r a' where cf: "cups_fill Z a = Some (r, a')"
    by (auto simp: read_fill_def)
  from cups_fill_alike [OF cf assms(2)] obtain b' where cb: "cups_fill Z b = Some (r, b')"
    and ab': "alike a' b'" by blast
  show ?thesis
    using True tb cf cb ab' assms(1) by (auto simp: read_fill_def)
qed

lemma take_window:
  "c \<le> e - p \<Longrightarrow> take c (drop p xs) = take c (drop p (take e xs))"
  by (simp add: drop_take)

lemma read_copy_alike:
  assumes "alike a b"
  shows "\<exists>c chunk a2 b2. read_copy a n = (c, chunk, a2) \<and> read_copy b n = (c, chunk, b2)
           \<and> alike a2 b2"
proof -
  define e where "e = off (endp a)"
  define p where "p = off (ptr a)"
  define c where "c = (if e - p > n then n else e - p)"
  have eqs: "off (endp b) = e" "off (ptr b) = p" "take e (buf a) = take e (buf b)"
    using assms by (auto simp: alike_def e_def p_def)
  have cl: "c \<le> e - p" by (simp add: c_def)
  have ch: "take c (drop p (buf a)) = take c (drop p (buf b))"
    using take_window [OF cl, of "buf a"] take_window [OF cl, of "buf b"] eqs(3) by simp
  have ra: "read_copy a n = (c, take c (drop p (buf a)), a\<lparr>ptr := Some (p + c), pos := pos a + int c\<rparr>)"
    by (simp add: read_copy_def Let_def e_def p_def c_def)
  have rb: "read_copy b n = (c, take c (drop p (buf b)), b\<lparr>ptr := Some (p + c), pos := pos b + int c\<rparr>)"
    using eqs by (simp add: read_copy_def Let_def c_def)
  have "alike (a\<lparr>ptr := Some (p + c), pos := pos a + int c\<rparr>) (b\<lparr>ptr := Some (p + c), pos := pos b + int c\<rparr>)"
    using assms by (auto simp: alike_def)
  with ra rb ch show ?thesis by simp
qed

lemma read_loop_alike:
  assumes "read_loop Z0 a0 n0 tot0 acc0 = Some y0"
  shows "\<forall>b. alike a0 b \<longrightarrow>
           (\<exists>b'. read_loop Z0 b n0 tot0 acc0 = Some (fst y0, fst (snd y0), b') \<and> alike (snd (snd y0)) b')"
proof (rule read_loop.raw_induct
    [where P = "\<lambda>Z a n tot acc y. \<forall>b. alike a b \<longrightarrow>
           (\<exists>b'. read_loop Z b n tot acc = Some (fst y, fst (snd y), b') \<and> alike (snd (snd y)) b')",
      OF _ assms], goal_cases)
  case (1 f Z a n tot acc y)
  show ?case
  proof (intro allI impI)
    fix b assume ab: "alike a b"
    show "\<exists>b'. read_loop Z b n tot acc = Some (fst y, fst (snd y), b') \<and> alike (snd (snd y)) b'"
    proof (cases "0 < n")
      case False
      with "1"(2) have "y = (int tot, acc, a)" by simp
      moreover have "read_loop Z b n tot acc = Some (int tot, acc, b)"
        using False by (subst read_loop.simps) simp
      ultimately show ?thesis using ab by simp
    next
      case True
      from True "1"(2) obtain ca where rfa: "read_fill Z a tot = Some ca"
        by (auto split: option.splits)
      from read_fill_alike [OF rfa ab] obtain cb where rfb: "read_fill Z b tot = Some cb"
        and rc: "rel_ctl alike ca cb" by blast
      show ?thesis
      proof (cases ca)
        case (Return r x)
        with rc obtain x' where cb': "cb = Return r x'" and xx: "alike x x'"
          by (cases cb) auto
        from True "1"(2) rfa Return have "y = (r, acc, x)" by simp
        moreover have "read_loop Z b n tot acc = Some (r, acc, x')"
          using True rfb cb' by (subst read_loop.simps) simp
        ultimately show ?thesis using xx by simp
      next
        case (Continue a1)
        with rc obtain b1 where cb': "cb = Continue b1" and a1b1: "alike a1 b1"
          by (cases cb) auto
        from read_copy_alike [OF a1b1, of n] obtain c chunk a2 b2 where
          ra: "read_copy a1 n = (c, chunk, a2)" and rb: "read_copy b1 n = (c, chunk, b2)"
          and a2b2: "alike a2 b2" by blast
        from True "1"(2) rfa Continue ra have "f Z a2 (n - c) (tot + c) (acc @ chunk) = Some y"
          by simp
        from "1"(1) [OF this] a2b2 obtain b' where
          "read_loop Z b2 (n - c) (tot + c) (acc @ chunk) = Some (fst y, fst (snd y), b')"
          and "alike (snd (snd y)) b'" by blast
        moreover have "read_loop Z b n tot acc = read_loop Z b2 (n - c) (tot + c) (acc @ chunk)"
          using True rfb cb' rb by (subst read_loop.simps) simp
        ultimately show ?thesis by simp
      qed
    qed
  qed
qed

lemma read_loop_file:
  assumes "read_loop Z0 a0 n0 tot0 acc0 = Some y0"
  shows "same_place (a0\<lparr>pos := pos (snd (snd y0)), bufpos := bufpos (snd (snd y0))\<rparr>) (snd (snd y0))"
proof (rule read_loop.raw_induct
    [where P = "\<lambda>Z a n tot acc y.
        same_place (a\<lparr>pos := pos (snd (snd y)), bufpos := bufpos (snd (snd y))\<rparr>) (snd (snd y))",
      OF _ assms], goal_cases)
  case (1 f Z a n tot acc y)
  show ?case
  proof (cases "0 < n")
    case False
    with "1"(2) show ?thesis by (auto simp: same_place_def)
  next
    case True
    from True "1"(2) obtain ca where rfa: "read_fill Z a tot = Some ca"
      by (auto split: option.splits)
    have sp: "\<And>x. ca = Return r x \<or> ca = Continue x \<Longrightarrow>
        same_place (a\<lparr>pos := pos x, bufpos := bufpos x\<rparr>) x" for r
    proof -
      fix x r assume h: "ca = Return r x \<or> ca = Continue x"
      show "same_place (a\<lparr>pos := pos x, bufpos := bufpos x\<rparr>) x"
      proof (cases "ptr_ge (ptr a) (endp a)")
        case False
        with rfa h show ?thesis by (auto simp: read_fill_def same_place_def)
      next
        case T: True
        with rfa h obtain r' where cf: "cups_fill Z a = Some (r', x)"
          by (auto simp: read_fill_def split: if_splits)
        from cups_fill_loop_frame [of Z "fill_enter a" "(r', x)"] cf
        have "same_place (fill_enter a) x" by (simp add: cups_fill_def)
        then show ?thesis by (auto simp: same_place_def fill_enter_def split: if_splits)
      qed
    qed
    show ?thesis
    proof (cases ca)
      case (Return r x)
      with True "1"(2) rfa have "y = (r, acc, x)" by simp
      with sp [of r x] Return show ?thesis by simp
    next
      case (Continue a1)
      obtain c chunk a2 where ra: "read_copy a1 n = (c, chunk, a2)"
        by (cases "read_copy a1 n") auto
      then have a2: "a2 = a1\<lparr>ptr := ptr a2, pos := pos a2\<rparr>"
        by (auto simp: read_copy_def Let_def)
      from True "1"(2) rfa Continue ra have "f Z a2 (n - c) (tot + c) (acc @ chunk) = Some y"
        by simp
      from "1"(1) [OF this] have
        s2: "same_place (a2\<lparr>pos := pos (snd (snd y)), bufpos := bufpos (snd (snd y))\<rparr>) (snd (snd y))" .
      from sp [of _ a1] Continue have s1: "same_place (a\<lparr>pos := pos a1, bufpos := bufpos a1\<rparr>) a1"
        by simp
      have "mode a2 = mode a1 \<and> is_stdio a2 = is_stdio a1 \<and> fd a2 = fd a1"
        by (subst a2, subst (2) a2, subst (3) a2) simp
      with s1 s2 show ?thesis by (auto simp: same_place_def)
    qed
  qed
qed


lemma read_fill_place:
  assumes rf: "read_fill Z a tot = Some ca" and ex: "ptr_ge (ptr a) (endp a)"
  shows "(\<forall>r x. ca = Return r x \<longrightarrow> bufpos x = bufpos (fill_enter a) \<and> r = (if tot > 0 then int tot else -1))
       \<and> (\<forall>x. ca = Continue x \<longrightarrow> bufpos x = bufpos (fill_enter a) \<and> ptr x = Some 0
               \<and> (\<exists>e. endp x = Some e))"
proof -
  from rf ex obtain r' x' where cf: "cups_fill Z a = Some (r', x')"
    by (auto simp: read_fill_def)
  from cups_fill_loop_frame [of Z "fill_enter a" "(r', x')"] cf
  have sp: "same_place (fill_enter a) x'" and fb: "0 < r' \<longrightarrow> fresh_buffer r' x'"
    by (simp_all add: cups_fill_def)
  show ?thesis
    using rf ex cf sp fb
    by (auto simp: read_fill_def same_place_def fresh_buffer_def split: if_splits)
qed

lemma read_loop_at_start:
  assumes "read_loop Z0 a0 n0 tot0 acc0 = Some y0"
  shows "cursor_ok a0 \<and> 0 \<le> bufpos a0
           \<and> (bufpos a0 = 0 \<longrightarrow> tot0 = off (ptr a0) \<and> acc0 = take tot0 (buf a0))
         \<longrightarrow> 0 < fst y0 \<and> bufpos (snd (snd y0)) = 0
         \<longrightarrow> fst y0 = int (tot0 + n0) \<and> ptr (snd (snd y0)) = Some (tot0 + n0)
             \<and> (\<exists>e. endp (snd (snd y0)) = Some e \<and> tot0 + n0 \<le> e)
             \<and> fst (snd y0) = take (tot0 + n0) (buf (snd (snd y0)))"
proof (rule read_loop.raw_induct
    [where P = "\<lambda>Z a n tot acc y. cursor_ok a \<and> 0 \<le> bufpos a
           \<and> (bufpos a = 0 \<longrightarrow> tot = off (ptr a) \<and> acc = take tot (buf a))
         \<longrightarrow> 0 < fst y \<and> bufpos (snd (snd y)) = 0
         \<longrightarrow> fst y = int (tot + n) \<and> ptr (snd (snd y)) = Some (tot + n)
             \<and> (\<exists>e. endp (snd (snd y)) = Some e \<and> tot + n \<le> e)
             \<and> fst (snd y) = take (tot + n) (buf (snd (snd y)))",
      OF _ assms], goal_cases)
  case (1 f Z a n tot acc y)
  show ?case
  proof (intro impI, elim conjE)
    assume ok: "cursor_ok a" and nn: "0 \<le> bufpos a"
      and j: "bufpos a = 0 \<longrightarrow> tot = off (ptr a) \<and> acc = take tot (buf a)"
      and py: "0 < fst y" and bz: "bufpos (snd (snd y)) = 0"
    show "fst y = int (tot + n) \<and> ptr (snd (snd y)) = Some (tot + n)
             \<and> (\<exists>e. endp (snd (snd y)) = Some e \<and> tot + n \<le> e)
             \<and> fst (snd y) = take (tot + n) (buf (snd (snd y)))"
    proof (cases "0 < n")
      case False
      with "1"(2) have y: "y = (int tot, acc, a)" by simp
      with py bz j ok show ?thesis
        using False by (auto simp: cursor_ok_def off_def split: option.splits)
    next
      case True
      from True "1"(2) obtain ca where rfa: "read_fill Z a tot = Some ca"
        by (auto split: option.splits)
      have enter0: "ptr_ge (ptr a) (endp a) \<Longrightarrow> bufpos (fill_enter a) = 0 \<Longrightarrow> bufpos a = 0 \<and> tot = 0 \<and> acc = []"
        using ok nn j
        by (auto simp: fill_enter_def cursor_ok_def ptr_ge_def off_def split: option.splits if_splits)
      have enter_nn: "0 \<le> bufpos (fill_enter a)"
        using nn by (auto simp: fill_enter_def)
      show ?thesis
      proof (cases ca)
        case (Return r x)
        with True "1"(2) rfa have y: "y = (r, acc, x)" by simp
        have ex: "ptr_ge (ptr a) (endp a)"
          using rfa Return by (auto simp: read_fill_def split: if_splits)
        from read_fill_place [OF rfa ex] Return
        have "bufpos x = bufpos (fill_enter a)" and "r = (if tot > 0 then int tot else -1)" by simp_all
        with y py bz enter0 [OF ex] show ?thesis by (auto split: if_splits)
      next
        case (Continue a1)
        have j1: "cursor_ok a1 \<and> 0 \<le> bufpos a1 \<and> ptr a1 \<noteq> None
                  \<and> (bufpos a1 = 0 \<longrightarrow> tot = off (ptr a1) \<and> acc = take tot (buf a1))"
        proof (cases "ptr_ge (ptr a) (endp a)")
          case False
          with rfa Continue have "a1 = a" by (simp add: read_fill_def)
          with False ok nn j show ?thesis
            by (auto simp: ptr_ge_def cursor_ok_def split: option.splits)
        next
          case ex: True
          from read_fill_place [OF rfa ex] Continue
          obtain e where b1: "bufpos a1 = bufpos (fill_enter a)" and p1: "ptr a1 = Some 0"
            and e1: "endp a1 = Some e" by auto
          with enter0 [OF ex] enter_nn show ?thesis
            by (auto simp: cursor_ok_def off_def)
        qed
        obtain c chunk a2 where ra: "read_copy a1 n = (c, chunk, a2)"
          by (cases "read_copy a1 n") auto
        from j1 obtain p e where p: "ptr a1 = Some p" and e: "endp a1 = Some e" and pe: "p \<le> e"
          by (auto simp: cursor_ok_def split: option.splits)
        have c: "c = (if e - p > n then n else e - p)" and ch: "chunk = take c (drop p (buf a1))"
          and a2: "a2 = a1\<lparr>ptr := Some (p + c), pos := pos a1 + int c\<rparr>"
          using ra p e by (auto simp: read_copy_def Let_def off_def)
        have cn: "c \<le> n" using c by auto
        have j2: "cursor_ok a2 \<and> 0 \<le> bufpos a2
                  \<and> (bufpos a2 = 0 \<longrightarrow> tot + c = off (ptr a2) \<and> acc @ chunk = take (tot + c) (buf a2))"
        proof -
          have "cursor_ok a2" using pe e c by (auto simp: a2 cursor_ok_def)
          moreover have "0 \<le> bufpos a2" using j1 by (simp add: a2)
          moreover have "bufpos a2 = 0 \<longrightarrow> tot + c = off (ptr a2) \<and> acc @ chunk = take (tot + c) (buf a2)"
            using j1 p by (auto simp: a2 off_def ch take_add)
          ultimately show ?thesis by simp
        qed
        from True "1"(2) rfa Continue ra have "f Z a2 (n - c) (tot + c) (acc @ chunk) = Some y"
          by simp
        from "1"(1) [OF this] j2 py bz cn show ?thesis by simp
      qed
    qed
  qed
qed


lemma os_file_reset:
  "fdata f = bs \<Longrightarrow> f\<lparr>script := [], foffset := 0\<rparr> = file_of bs"
  by (cases f) (simp add: file_of_def)

text \<open>
  Claim C6.  Take a handle freshly opened for reading over a file whose system calls all succeed,
  and let a read of \<open>N\<close> bytes return a positive count \<open>r\<close> with the bytes
  \<open>out\<close>.  Then seeking to position 0 is the rewind, it returns 0, and a second read of
  \<open>N\<close> bytes on the rewound handle returns the same count and the same bytes.  The
  statement does not depend on whether the content is a gzip stream or not: the decoder is a
  parameter, and the content \<open>bs\<close> is arbitrary.
\<close>

theorem read_rewind_read:
  assumes r1: "cupsFileRead Z (opened_for_read z0 bs) N = Some (r, out, fp1)" and pr: "0 < r"
  shows "cupsFileSeek Z fp1 0 = Some (cupsFileRewind fp1) \<and> fst (cupsFileRewind fp1) = 0
       \<and> (\<exists>fp3. cupsFileRead Z (snd (cupsFileRewind fp1)) N = Some (r, out, fp3))"
proof -
  let ?fp0 = "opened_for_read z0 bs"
  have f0: "mode ?fp0 = CHR ''r''" "\<not> eof ?fp0" "ptr ?fp0 = None" "endp ?fp0 = None"
    "bufpos ?fp0 = 0" "pos ?fp0 = 0" "fd ?fp0 = file_of bs" "\<not> compressed ?fp0" "buf ?fp0 = []"
    by (simp_all add: opened_for_read_def cleared_def)
  from r1 pr f0 have n: "0 < N"
    by (auto simp: cupsFileRead_def split: if_splits)
  with r1 f0 have rl: "read_loop Z ?fp0 N 0 [] = Some (r, out, fp1)"
    by (simp add: cupsFileRead_def)
  from read_loop_file [OF rl] f0
  have m1: "mode fp1 = CHR ''r''" and fd1: "fdata (fd fp1) = bs" and sc1: "script (fd fp1) = []"
    by (simp_all add: same_place_def file_of_def)
  have sk: "cupsFileSeek Z fp1 0 = Some (cupsFileRewind fp1)"
    using m1 by (simp add: cupsFileSeek_def)
  show ?thesis
  proof (cases "bufpos fp1 = 0")
    case True
    from read_loop_at_start [OF rl] f0 pr True
    obtain e where rn: "r = int N" and p1: "ptr fp1 = Some N" and e1: "endp fp1 = Some e"
      and ne: "N \<le> e" and o1: "out = take N (buf fp1)"
      by (auto simp: cursor_ok_def off_def)
    define fp2 where "fp2 = fp1\<lparr>pos := 0, ptr := Some 0, eof := False\<rparr>"
    have rw: "cupsFileRewind fp1 = (0, fp2)"
      using m1 True p1 by (simp add: cupsFileRewind_def fp2_def Let_def)
    have rf: "read_fill Z fp2 0 = Some (Continue fp2)"
      using e1 ne n by (simp add: read_fill_def fp2_def ptr_ge_def)
    have rc: "read_copy fp2 N = (N, out, fp2\<lparr>ptr := Some N, pos := int N\<rparr>)"
      using e1 ne o1 by (auto simp: read_copy_def fp2_def Let_def off_def)
    have "read_loop Z fp2 N 0 [] = Some (int N, out, fp2\<lparr>ptr := Some N, pos := int N\<rparr>)"
      using n rf rc by (subst read_loop.simps, subst read_loop.simps) simp
    then have "cupsFileRead Z fp2 N = Some (r, out, fp2\<lparr>ptr := Some N, pos := int N\<rparr>)"
      using n m1 rn by (simp add: cupsFileRead_def fp2_def)
    with sk rw show ?thesis by simp
  next
    case False
    define fp1' where "fp1' = (if compressed fp1 then fp1\<lparr>compressed := False\<rparr> else fp1)"
    define fp2 where "fp2 = fp1'\<lparr>fd := file_of bs, bufpos := 0, pos := 0, ptr := None,
                                  endp := None, eof := False\<rparr>"
    have ls: "sys_lseek (fd fp1') 0 = (0, file_of bs)"
      using sc1 fd1 os_file_reset [of "fd fp1" bs]
      by (simp add: sys_lseek_def next_res_def advance_def fp1'_def)
    have rw: "cupsFileRewind fp1 = (0, fp2)"
      using m1 False ls by (simp add: cupsFileRewind_def fp2_def fp1'_def [symmetric] Let_def)
    have al: "alike ?fp0 fp2"
      using f0 m1 by (simp add: alike_def fp2_def fp1'_def off_def)
    from read_loop_alike [OF rl] al obtain fp3 where
      "read_loop Z fp2 N 0 [] = Some (r, out, fp3)" by auto
    then have "cupsFileRead Z fp2 N = Some (r, out, fp3)"
      using n m1 by (simp add: cupsFileRead_def fp2_def fp1'_def)
    with sk rw show ?thesis by simp
  qed
qed

text \<open>The handle of the statement is the one \<open>cupsFileOpenFd\<close> returns for mode \<open>r\<close>.\<close>

lemma opened_for_read_is_opened:
  "cupsFileOpenFd Z z0 t (file_of bs) ''r'' = Some (opened_for_read z0 bs)"
  by (simp add: cupsFileOpenFd_def opened_for_read_def chr_at_def isdigit_def Let_def)

text \<open>A gzip file holding the single byte \<open>a\<close>, read, rewound and read again.\<close>

theorem read_rewind_read_witness:
  "\<exists>fp1 fp3. cupsFileRead stored_zlib (opened_for_read ZBad gz_a) 1 = Some (1, [0x61], fp1)
     \<and> cupsFileSeek stored_zlib fp1 0 = Some (cupsFileRewind fp1)
     \<and> cupsFileRead stored_zlib (snd (cupsFileRewind fp1)) 1 = Some (1, [0x61], fp3)"
proof -
  have "map_option (\<lambda>(r, out, fp'). (r, out))
     (cupsFileRead stored_zlib (opened_for_read ZBad gz_a) 1) = Some (1, [0x61])"
    by code_simp
  then obtain fp1 where
    rd: "cupsFileRead stored_zlib (opened_for_read ZBad gz_a) 1 = Some (1, [0x61], fp1)"
    by (auto split: prod.splits)
  from read_rewind_read [OF rd] rd show ?thesis by auto
qed


end
